theory Spec2Isabelle
  imports Main "HOL-Library.Sublist" "HOL-Library.Extended_Nat"
begin

section \<open>Strings and regular expressions of the parser\<close>

text \<open>
  The parser of \<^verbatim>\<open>src/lib/markover-parser.ts\<close> works on JavaScript strings. A string is
  modelled as a \<^typ>\<open>string\<close>, one \<^typ>\<open>char\<close> per code unit (code units in the range
  0..255). Indices and lengths are natural numbers; a search that JavaScript answers with
  \<^verbatim>\<open>-1\<close> answers \<^const>\<open>None\<close>, except where the code computes with the \<^verbatim>\<open>-1\<close>
  (\<^verbatim>\<open>lastIndexOf\<close> in the paginator), where the result is an \<^typ>\<open>int\<close>.
\<close>

text \<open>White space as \<^verbatim>\<open>String.prototype.trim\<close> and \<^verbatim>\<open>\s\<close> see it, among the code
  units 0..255: TAB, LF, VT, FF, CR, space and the no-break space.\<close>

definition is_ws :: "char \<Rightarrow> bool" where
  "is_ws c = (of_char c \<in> {9, 10, 11, 12, 13, 32, 160 :: nat})"

definition trim :: "string \<Rightarrow> string" where
  "trim s = rev (dropWhile is_ws (rev (dropWhile is_ws s)))"

text \<open>\<^verbatim>\<open>s.slice(start, end)\<close> and \<^verbatim>\<open>s.substring(start, end)\<close> for
  \<^verbatim>\<open>0 <= start\<close> and \<^verbatim>\<open>0 <= end\<close>; \<^verbatim>\<open>slice\<close> is empty when \<^verbatim>\<open>end < start\<close>
  (the parser never calls \<^verbatim>\<open>substring\<close> with \<^verbatim>\<open>end < start\<close>).\<close>

definition slice :: "string \<Rightarrow> nat \<Rightarrow> nat \<Rightarrow> string" where
  "slice s start stop = take (stop - start) (drop start s)"

text \<open>
  A regular expression is translated into a \<^emph>\<open>matcher\<close>: given the text from a candidate
  position on, the length of the match that starts there, if there is one. The search for
  the leftmost match and the global iteration of \<^verbatim>\<open>match\<close> and \<^verbatim>\<open>replace\<close> with the
  \<^verbatim>\<open>g\<close> flag are written once, over matchers. No pattern of the parser matches the
  empty string.
\<close>

type_synonym matcher = "string \<Rightarrow> nat option"

text \<open>\<^verbatim>\<open>s.search(re)\<close>, \<^verbatim>\<open>re.exec(s)\<close> from index 0 and \<^verbatim>\<open>s.indexOf(lit)\<close>:
  index and length of the leftmost match.\<close>

fun re_search :: "matcher \<Rightarrow> string \<Rightarrow> (nat \<times> nat) option" where
  "re_search m [] = (case m [] of Some l \<Rightarrow> Some (0, l) | None \<Rightarrow> None)"
| "re_search m (c # cs) =
     (case m (c # cs) of
        Some l \<Rightarrow> Some (0, l)
      | None \<Rightarrow> (case re_search m cs of Some (p, l) \<Rightarrow> Some (Suc p, l) | None \<Rightarrow> None))"

text \<open>\<^verbatim>\<open>s.match(re)\<close> with the \<^verbatim>\<open>g\<close> flag: all matches from left to right, each
  search resuming where the previous match ended. The counter is the number of characters
  of the current match still to be passed.\<close>

fun re_match_all :: "matcher \<Rightarrow> nat \<Rightarrow> string \<Rightarrow> string list" where
  "re_match_all m k [] = []"
| "re_match_all m (Suc k) (c # cs) = re_match_all m k cs"
| "re_match_all m 0 (c # cs) =
     (case m (c # cs) of
        Some l \<Rightarrow> take l (c # cs) # re_match_all m (l - 1) cs
      | None \<Rightarrow> re_match_all m 0 cs)"

text \<open>\<^verbatim>\<open>s.replace(re, f)\<close> with the \<^verbatim>\<open>g\<close> flag and a callback \<^verbatim>\<open>f\<close> that reads
  and updates a state (the table of code blocks of the Code Guard).\<close>

fun re_replace_st ::
  "matcher \<Rightarrow> (string \<Rightarrow> 's \<Rightarrow> string \<times> 's) \<Rightarrow> nat \<Rightarrow> string \<Rightarrow> 's \<Rightarrow> string \<times> 's" where
  "re_replace_st m f k [] st = ([], st)"
| "re_replace_st m f (Suc k) (c # cs) st = re_replace_st m f k cs st"
| "re_replace_st m f 0 (c # cs) st =
     (case m (c # cs) of
        Some l \<Rightarrow>
          (let (r, st') = f (take l (c # cs)) st;
               (out, st'') = re_replace_st m f (l - 1) cs st'
           in (r @ out, st''))
      | None \<Rightarrow> (let (out, st') = re_replace_st m f 0 cs st in (c # out, st')))"

text \<open>The same with a callback without state.\<close>

definition re_replace :: "matcher \<Rightarrow> (string \<Rightarrow> string) \<Rightarrow> string \<Rightarrow> string" where
  "re_replace m f s = fst (re_replace_st m (\<lambda>x (u::unit). (f x, u)) 0 s ())"

text \<open>The matcher of a literal, for \<^verbatim>\<open>indexOf\<close>, \<^verbatim>\<open>includes\<close> and \<^verbatim>\<open>/<\/>/\<close>.\<close>

definition lit :: "string \<Rightarrow> matcher" where
  "lit p s = (if prefix p s then Some (length p) else None)"

text \<open>The matcher of \<^verbatim>\<open>p[^c]*c\<close> (\<open>lo = 0\<close>) and \<^verbatim>\<open>p[^c]+c\<close> (\<open>lo = 1\<close>) for a literal
  \<open>p\<close> and a character \<open>c\<close>: the greedy class takes every character up to the next \<open>c\<close>,
  and no shorter run can be followed by \<open>c\<close>.\<close>

definition lit_until :: "string \<Rightarrow> char \<Rightarrow> nat \<Rightarrow> matcher" where
  "lit_until p c lo s =
     (if prefix p s then
        (let r = drop (length p) s; k = length (takeWhile (\<lambda>x. x \<noteq> c) r)
         in if lo \<le> k \<and> k < length r then Some (length p + k + 1) else None)
      else None)"

text \<open>\<^verbatim>\<open>s.indexOf(p, i)\<close> for \<^verbatim>\<open>i <= s.length\<close>.\<close>

definition indexOf :: "string \<Rightarrow> string \<Rightarrow> nat \<Rightarrow> nat option" where
  "indexOf s p i = (case re_search (lit p) (drop i s) of Some (k, _) \<Rightarrow> Some (i + k) | None \<Rightarrow> None)"

definition includes_str :: "string \<Rightarrow> string \<Rightarrow> bool" where
  "includes_str s p = (re_search (lit p) s \<noteq> None)"

text \<open>\<^verbatim>\<open>s.lastIndexOf(p)\<close> for a non-empty \<open>p\<close>, with JavaScript's \<^verbatim>\<open>-1\<close>.\<close>

fun last_index :: "string \<Rightarrow> string \<Rightarrow> nat option" where
  "last_index p [] = None"
| "last_index p (c # cs) =
     (case last_index p cs of
        Some k \<Rightarrow> Some (Suc k)
      | None \<Rightarrow> if prefix p (c # cs) then Some 0 else None)"

definition lastIndexOf :: "string \<Rightarrow> string \<Rightarrow> int" where
  "lastIndexOf s p = (case last_index p s of Some k \<Rightarrow> int k | None \<Rightarrow> - 1)"


section \<open>Paginator\<close>

subsection \<open>Height estimate\<close>

text \<open>The six patterns of \<^verbatim>\<open>estimateContentHeight\<close>:
  \<^verbatim>\<open>/<h[1-6][^>]*>/g\<close>, \<^verbatim>\<open>/<p[^>]*>/g\<close>, \<^verbatim>\<open>/<(ul|ol)[^>]*>/g\<close>, \<^verbatim>\<open>/<img[^>]*>/g\<close>,
  \<^verbatim>\<open>/<pre[^>]*>/g\<close> and \<^verbatim>\<open>/<blockquote[^>]*>/g\<close>.\<close>

definition alt :: "matcher \<Rightarrow> matcher \<Rightarrow> matcher" where
  "alt m1 m2 s = (case m1 s of Some l \<Rightarrow> Some l | None \<Rightarrow> m2 s)"

definition tag_re :: "string \<Rightarrow> matcher" where
  "tag_re p = lit_until p (CHR ''>'') 0"

definition heading_re :: matcher where
  "heading_re =
     alt (tag_re ''<h1'') (alt (tag_re ''<h2'') (alt (tag_re ''<h3'')
       (alt (tag_re ''<h4'') (alt (tag_re ''<h5'') (tag_re ''<h6'')))))"

definition paragraph_re :: matcher where
  "paragraph_re = tag_re ''<p''"

definition list_re :: matcher where
  "list_re = alt (tag_re ''<ul'') (tag_re ''<ol'')"

definition image_re :: matcher where
  "image_re = tag_re ''<img''"

definition codeBlock_re :: matcher where
  "codeBlock_re = tag_re ''<pre''"

definition blockquote_re :: matcher where
  "blockquote_re = tag_re ''<blockquote''"

text \<open>\<^verbatim>\<open>(html.match(re) || []).length\<close>\<close>

definition match_count :: "matcher \<Rightarrow> string \<Rightarrow> nat" where
  "match_count m s = length (re_match_all m 0 s)"

definition estimateContentHeight :: "string \<Rightarrow> nat" where
  "estimateContentHeight html =
     match_count heading_re html * 40
     + match_count paragraph_re html * 60
     + match_count list_re html * 100
     + match_count image_re html * 200
     + match_count codeBlock_re html * 150
     + match_count blockquote_re html * 80
     + 200"

subsection \<open>Numbers\<close>

text \<open>
  \<^verbatim>\<open>pageHeight\<close> is a JavaScript number: \<^verbatim>\<open>NaN\<close>, an infinity, or a finite double. The
  flag is the sign, \<^const>\<open>True\<close> for negative; \<open>Double s m e\<close> is the finite number of sign
  \<open>s\<close> and magnitude \<open>m * 2 ^ e\<close>, which every finite double is, and \<open>m = 0\<close> gives the two
  zeros. String lengths, indices and the height estimate are integers below \<open>2 ^ 53\<close>,
  which doubles hold exactly: they are natural numbers and integers of the model.
\<close>

datatype number = NaN | Infinity bool | Double bool nat int

definition number_of_nat :: "nat \<Rightarrow> number" where
  "number_of_nat n = Double False n 0"

text \<open>\<^verbatim>\<open>n <= x\<close> for a positive integer \<open>n\<close>.\<close>

definition le_number :: "nat \<Rightarrow> number \<Rightarrow> bool" where
  "le_number n x =
     (case x of
        NaN \<Rightarrow> False
      | Infinity negative \<Rightarrow> \<not> negative
      | Double negative m e \<Rightarrow>
          \<not> negative
          \<and> (if 0 \<le> e then int n \<le> int m * 2 ^ nat e else int n * 2 ^ nat (- e) \<le> int m))"

text \<open>
  The result of an arithmetic operation is the double nearest to the exact result, a tie
  going to the even significand. For positive integers \<open>n\<close> and \<open>d\<close> the quotient \<open>n / d\<close> is
  scaled by the power of two that brings its integer part to 53 bits, and rounded there:
  \<^term>\<open>nearest_double n d\<close> is the significand and the exponent of the double nearest to
  \<open>n / d\<close>. The exponent is not bounded here: the overflow to \<^verbatim>\<open>Infinity\<close> is left to the
  caller, and the subnormal numbers, which are all below 1, are rounded as the others.
\<close>

fun bit_length :: "int \<Rightarrow> nat" where
  "bit_length n = (if n \<le> 0 then 0 else Suc (bit_length (n div 2)))"

declare bit_length.simps [simp del]

definition round_half_even :: "int \<Rightarrow> int \<Rightarrow> int" where
  "round_half_even n d =
     (let q = n div d; r = n mod d
      in if d < 2 * r \<or> (2 * r = d \<and> odd q) then q + 1 else q)"

definition scale :: "int \<Rightarrow> int \<Rightarrow> int \<Rightarrow> int \<times> int" where
  "scale n d s = (if 0 \<le> s then (n * 2 ^ nat s, d) else (n, d * 2 ^ nat (- s)))"

definition nearest_double :: "int \<Rightarrow> int \<Rightarrow> int \<times> int" where
  "nearest_double n d =
     (let s0 = 53 - (int (bit_length n) - int (bit_length d));
          s = (if fst (scale n d s0) div snd (scale n d s0) < 2 ^ 53 then s0 else s0 - 1)
      in (round_half_even (fst (scale n d s)) (snd (scale n d s)), - s))"

text \<open>\<^verbatim>\<open>Math.ceil(n / d)\<close> for positive \<open>n\<close> and \<open>d\<close>: the quotient is rounded to a double, which
  is \<^verbatim>\<open>Infinity\<close> from \<open>2 ^ 1024\<close> on, and the ceiling is taken of the double.\<close>

definition ceil_double :: "int \<times> int \<Rightarrow> enat" where
  "ceil_double v =
     (case v of (sig, e) \<Rightarrow>
        if 0 \<le> e then
          (if 2 ^ 1024 \<le> sig * 2 ^ nat e then \<infinity> else enat (nat (sig * 2 ^ nat e)))
        else enat (nat (- ((- sig) div 2 ^ nat (- e)))))"

definition ceil_quotient :: "int \<Rightarrow> int \<Rightarrow> enat" where
  "ceil_quotient n d = ceil_double (nearest_double n d)"

text \<open>
  \<^verbatim>\<open>breakPoint > contentPerPage * 0.7\<close>. The literal \<^verbatim>\<open>0.7\<close> is the double
  \<open>3152519739159347 / 2 ^ 52\<close>, a little less than seven tenths, and the product is
  rounded to a double before the comparison: \<^verbatim>\<open>90 * 0.7\<close> is \<^verbatim>\<open>62.99999999999999\<close>, and
  63 is greater.
\<close>

definition double_0_7 :: int where
  "double_0_7 = 3152519739159347"

definition exceeds_0_7 :: "int \<Rightarrow> nat \<Rightarrow> bool" where
  "exceeds_0_7 bp cpp =
     (if cpp = 0 then 0 < bp
      else (case nearest_double (int cpp * double_0_7) (2 ^ 52) of (sig, e) \<Rightarrow>
              if 0 \<le> e then sig * 2 ^ nat e < bp else sig < bp * 2 ^ nat (- e)))"

subsection \<open>Splitting\<close>

text \<open>
  \<^verbatim>\<open>Math.max(1, Math.ceil(estimatedContentHeight / pageHeight))\<close>. The estimate is a
  positive integer. Divided by \<^verbatim>\<open>NaN\<close> it is \<^verbatim>\<open>NaN\<close>, and so are the ceiling and the
  maximum: \<^const>\<open>None\<close>. Divided by an infinity it is a zero, divided by \<^verbatim>\<open>-0\<close> or by a
  negative number it is negative or \<^verbatim>\<open>-0\<close>, and the maximum is 1. Divided by \<^verbatim>\<open>0\<close> it is
  \<^verbatim>\<open>Infinity\<close>. Otherwise the maximum is a positive integer, or \<^verbatim>\<open>Infinity\<close> when the
  quotient overflows: an \<^typ>\<open>enat\<close>.
\<close>

definition pagesNeeded :: "string \<Rightarrow> number \<Rightarrow> enat option" where
  "pagesNeeded html pageHeight =
     (let estimatedContentHeight = estimateContentHeight html
      in case pageHeight of
           NaN \<Rightarrow> None
         | Infinity negative \<Rightarrow> Some 1
         | Double negative m e \<Rightarrow>
             if m = 0 then (if negative then Some 1 else Some \<infinity>)
             else if negative then Some 1
             else if 0 \<le> e
               then Some (max 1 (ceil_quotient (int estimatedContentHeight) (int m * 2 ^ nat e)))
             else Some (max 1 (ceil_quotient (int estimatedContentHeight * 2 ^ nat (- e)) (int m))))"

text \<open>\<^verbatim>\<open>Math.ceil(html.length / pagesNeeded)\<close>, for \<^verbatim>\<open>pagesNeeded\<close> a positive integer or
  \<^verbatim>\<open>Infinity\<close>; a length divided by \<^verbatim>\<open>Infinity\<close> is 0. The length and the ceiling of the
  quotient are integers below \<open>2 ^ 53\<close>, and the double nearest to the quotient has the
  ceiling of the quotient.\<close>

definition contentPerPage :: "string \<Rightarrow> enat \<Rightarrow> nat" where
  "contentPerPage html pn =
     (case pn of enat n \<Rightarrow> nat (- ((- int (length html)) div int n)) | \<infinity> \<Rightarrow> 0)"

text \<open>The body of the \<^verbatim>\<open>for\<close> loop: the fragment of page \<open>i\<close>.\<close>

definition breakPoint :: "string \<Rightarrow> int" where
  "breakPoint pageContent =
     max (lastIndexOf pageContent ''</'')
       (max (lastIndexOf pageContent ''</p>'')
         (max (lastIndexOf pageContent ''</h'')
           (max (lastIndexOf pageContent ''</ul>'') (lastIndexOf pageContent ''</ol>''))))"

definition page_at :: "string \<Rightarrow> enat \<Rightarrow> nat \<Rightarrow> nat \<Rightarrow> string" where
  "page_at html pn cpp i =
     (let start = i * cpp;
          stop = min (start + cpp) (length html);
          pageContent = slice html start stop
      in if enat i < pn - 1 \<and> stop < length html then
           (let bp = breakPoint pageContent
            in if exceeds_0_7 bp cpp then take (nat (bp + 4)) pageContent else pageContent)
         else pageContent)"

text \<open>
  The \<^verbatim>\<open>for\<close> loop. An array has at most \<open>2 ^ 32 - 1\<close> elements: \<^verbatim>\<open>pages.push\<close> on an array
  of that length throws a \<^verbatim>\<open>RangeError\<close>, which nothing catches. So the loop ends for every
  \<^verbatim>\<open>pagesNeeded\<close>, with the pages or with the error; the limits that an engine sets below
  that of the language are not modelled.
\<close>

datatype error = RangeError

definition max_array_length :: int where
  "max_array_length = 2 ^ 32 - 1"

function pages_loop ::
  "string \<Rightarrow> enat \<Rightarrow> nat \<Rightarrow> nat \<Rightarrow> string list \<Rightarrow> error + string list" where
  "pages_loop html pn cpp i pages =
     (if enat i < pn then
        (if int (length pages) < max_array_length
         then pages_loop html pn cpp (Suc i) (pages @ [page_at html pn cpp i])
         else Inl RangeError)
      else Inr pages)"
  by pat_completeness auto
termination
  by (relation "measure (\<lambda>(html, pn, cpp, i, pages). nat (max_array_length - int (length pages)))")
     auto

declare pages_loop.simps [simp del]

text \<open>With \<^verbatim>\<open>pagesNeeded\<close> \<^verbatim>\<open>NaN\<close> the test \<^verbatim>\<open>pagesNeeded === 1\<close> fails, \<^verbatim>\<open>contentPerPage\<close> is
  \<^verbatim>\<open>NaN\<close>, the condition \<^verbatim>\<open>0 < pagesNeeded\<close> of the loop fails at once, and the empty array
  is returned.\<close>

definition splitIntoPages :: "string \<Rightarrow> number \<Rightarrow> error + string list" where
  "splitIntoPages html pageHeight =
     (if trim html = [] then Inr ['''']
      else
        (case pagesNeeded html pageHeight of
           None \<Rightarrow> Inr []
         | Some pn \<Rightarrow>
             if pn = 1 then Inr [html]
             else pages_loop html pn (contentPerPage html pn) 0 []))"

definition getPageCount :: "string \<Rightarrow> number \<Rightarrow> error + nat" where
  "getPageCount html pageHeight =
     (case splitIntoPages html pageHeight of
        Inl e \<Rightarrow> Inl e
      | Inr pages \<Rightarrow> Inr (length pages))"

text \<open>A rendered document of sixteen paragraphs, one to a line, the eighth longer than the
  others.\<close>

definition paragraphs_html :: string where
  "paragraphs_html =
     concat (replicate 7 (''<p>a</p>'' @ [CHR 0x0A])) @ ''<p>hello world</p>'' @ [CHR 0x0A]
     @ concat (replicate 8 (''<p>a</p>'' @ [CHR 0x0A]))"

subsection \<open>The height estimate of the specification\<close>

text \<open>
  The specification weighs the occurrences of structural elements: headings, paragraphs,
  lists, images, code blocks and blockquotes. An opening tag of the element \<open>name\<close> is
  \<^verbatim>\<open><name\<close>, then a character that ends the tag name (\<^verbatim>\<open>>\<close>, \<^verbatim>\<open>/\<close> or white space),
  up to the next \<^verbatim>\<open>>\<close>.
\<close>

definition open_tag :: "string \<Rightarrow> matcher" where
  "open_tag name s =
     (case tag_re (''<'' @ name) s of
        Some l \<Rightarrow>
          (let c = s ! Suc (length name)
           in if c = CHR ''>'' \<or> c = CHR ''/'' \<or> is_ws c then Some l else None)
      | None \<Rightarrow> None)"

definition heading_tag :: matcher where
  "heading_tag =
     alt (open_tag ''h1'') (alt (open_tag ''h2'') (alt (open_tag ''h3'')
       (alt (open_tag ''h4'') (alt (open_tag ''h5'') (open_tag ''h6'')))))"

definition spec_estimateHeight :: "string \<Rightarrow> nat" where
  "spec_estimateHeight html =
     match_count heading_tag html * 40
     + match_count (open_tag ''p'') html * 60
     + match_count (alt (open_tag ''ul'') (open_tag ''ol'')) html * 100
     + match_count (open_tag ''img'') html * 200
     + match_count (open_tag ''pre'') html * 150
     + match_count (open_tag ''blockquote'') html * 80
     + 200"


section \<open>Delimiter Matcher\<close>

text \<open>The single quote and the opening marker \<^verbatim>\<open><>'\<close>.\<close>

abbreviation quote :: char where
  "quote \<equiv> CHR 0x27"

abbreviation opener :: string where
  "opener \<equiv> [CHR ''<'', CHR ''>'', quote]"

text \<open>The patterns \<^verbatim>\<open>/<>'[^']*'/\<close> of the matcher, \<^verbatim>\<open>/<>'([^']+)'/g\<close> of
  \<^verbatim>\<open>processAngleBlocks\<close> and \<^verbatim>\<open>/<\/>/\<close>.\<close>

definition opening_re :: matcher where
  "opening_re = lit_until opener quote 0"

definition angleBlockRegex :: matcher where
  "angleBlockRegex = lit_until opener quote 1"

definition closing_re :: matcher where
  "closing_re = lit ''</>''"

text \<open>One pass through the body of the \<^verbatim>\<open>while\<close> loop of \<^verbatim>\<open>findMatchingClosingTag\<close>,
  entered with \<^verbatim>\<open>i < text.length && depth > 0\<close>: the loop returns, or goes on with a new
  index and depth.\<close>

datatype scan_step = Return "nat option" | Continue nat nat

definition closing_found :: "nat \<Rightarrow> nat \<Rightarrow> nat \<Rightarrow> scan_step" where
  "closing_found i depth closingMatch =
     (if depth - 1 = 0 then Return (Some (i + closingMatch))
      else Continue (i + (closingMatch + 4)) (depth - 1))"

definition scan_body :: "string \<Rightarrow> nat \<Rightarrow> nat \<Rightarrow> scan_step" where
  "scan_body text i depth =
     (let remainingText = drop i text in
      case re_search opening_re remainingText of
        Some (openingMatch, len) \<Rightarrow>
          (case re_search closing_re remainingText of
             Some (closingMatch, _) \<Rightarrow>
               if openingMatch < closingMatch then Continue (i + (openingMatch + len)) (depth + 1)
               else closing_found i depth closingMatch
           | None \<Rightarrow> Continue (i + (openingMatch + len)) (depth + 1))
      | None \<Rightarrow>
          (case re_search closing_re remainingText of
             Some (closingMatch, _) \<Rightarrow> closing_found i depth closingMatch
           | None \<Rightarrow> Return None))"

text \<open>Every match of a search lies in the text, and a match of the opening pattern has at
  least the four characters \<^verbatim>\<open><>''\<close>: the body always moves the index forward, which is
  what makes the loop terminate.\<close>

lemma re_search_Some:
  "re_search m s = Some (p, l) \<Longrightarrow> p \<le> length s \<and> m (drop p s) = Some l"
  by (induction s arbitrary: p) (auto split: option.splits)

lemma opening_re_len: "opening_re t = Some l \<Longrightarrow> 4 \<le> l"
  by (auto simp: opening_re_def lit_until_def Let_def split: if_splits)

lemma scan_body_advances: "scan_body text i depth = Continue i' depth' \<Longrightarrow> i < i'"
  by (auto simp: scan_body_def closing_found_def Let_def
        split: option.splits if_splits dest!: re_search_Some opening_re_len)

function scan_loop :: "string \<Rightarrow> nat \<Rightarrow> nat \<Rightarrow> nat option" where
  "scan_loop text i depth =
     (if i < length text \<and> 0 < depth then
        (case scan_body text i depth of
           Return r \<Rightarrow> r
         | Continue i' depth' \<Rightarrow> scan_loop text i' depth')
      else None)"
  by pat_completeness auto
termination
proof (relation "measure (\<lambda>(text, i, depth). length text - i)")
  fix s :: string and i depth i' depth' :: nat
  assume inside: "i < length s \<and> 0 < depth" and step: "scan_body s i depth = Continue i' depth'"
  from step have "i < i'" by (rule scan_body_advances)
  with inside show "((s, i', depth'), (s, i, depth)) \<in> measure (\<lambda>(text, i, depth). length text - i)"
    by auto
qed simp

declare scan_loop.simps [simp del]

definition findMatchingClosingTag :: "string \<Rightarrow> nat \<Rightarrow> string \<Rightarrow> nat option" where
  "findMatchingClosingTag text startIndex openingTag =
     scan_loop text (startIndex + length openingTag) 1"

subsection \<open>The depth-matching closing marker of the specification\<close>













section \<open>Code Guard\<close>

text \<open>The patterns \<^verbatim>\<open>/`([^`]+)`/g\<close> and \<^verbatim>\<open>/```[\s\S]*?```/g\<close>; the lazy
  \<^verbatim>\<open>[\s\S]*?\<close> stops at the first \<^verbatim>\<open>```\<close> after the opening one.\<close>

definition inline_re :: matcher where
  "inline_re = lit_until ''`'' (CHR ''`'') 1"

definition fenced_re :: matcher where
  "fenced_re s =
     (if prefix ''```'' s then
        (case re_search (lit ''```'') (drop 3 s) of
           Some (k, _) \<Rightarrow> Some (3 + k + 3)
         | None \<Rightarrow> None)
      else None)"

text \<open>A number in a template literal, and \<^verbatim>\<open>parseInt\<close> of a run of digits.\<close>

definition digit_char :: "nat \<Rightarrow> char" where
  "digit_char d = char_of (48 + d)"

fun show_nat :: "nat \<Rightarrow> string" where
  "show_nat n = (if n < 10 then [digit_char n] else show_nat (n div 10) @ [digit_char (n mod 10)])"

declare show_nat.simps [simp del]

definition is_digit :: "char \<Rightarrow> bool" where
  "is_digit c = (48 \<le> (of_char c :: nat) \<and> (of_char c :: nat) \<le> 57)"

definition parseInt :: "string \<Rightarrow> nat" where
  "parseInt ds = foldl (\<lambda>a c. 10 * a + (of_char c - 48)) 0 ds"

text \<open>The callbacks of \<^verbatim>\<open>protectCodeBlocks\<close>: the placeholder carries the length of the
  table, and the match is pushed onto the table.\<close>

definition protect_cb :: "string \<Rightarrow> string \<Rightarrow> string list \<Rightarrow> string \<times> string list" where
  "protect_cb pre match codeBlocks =
     (pre @ show_nat (length codeBlocks) @ ''__'', codeBlocks @ [match])"

definition protectCodeBlocks :: "string \<Rightarrow> string \<times> string list" where
  "protectCodeBlocks text =
     (let (inlined, codeBlocks) = re_replace_st inline_re (protect_cb ''__INLINE_CODE_'') 0 text []
      in re_replace_st fenced_re (protect_cb ''__FENCED_CODE_'') 0 inlined codeBlocks)"

text \<open>The patterns \<^verbatim>\<open>/__INLINE_CODE_(\d+)__/g\<close> and \<^verbatim>\<open>/__FENCED_CODE_(\d+)__/g\<close>: the
  greedy \<^verbatim>\<open>\d+\<close> takes the whole run of digits. The callback
  \<^verbatim>\<open>codeBlocks[parseInt(index)] || match\<close> keeps the match when the index is outside the
  table or the entry is the empty string.\<close>

definition placeholder_re :: "string \<Rightarrow> matcher" where
  "placeholder_re pre s =
     (if prefix pre s then
        (let r = drop (length pre) s; ds = takeWhile is_digit r
         in if ds \<noteq> [] \<and> prefix ''__'' (drop (length ds) r)
            then Some (length pre + length ds + 2) else None)
      else None)"

definition restore_cb :: "string \<Rightarrow> string list \<Rightarrow> string \<Rightarrow> string" where
  "restore_cb pre codeBlocks match =
     (let index = parseInt (take (length match - length pre - 2) (drop (length pre) match))
      in if index < length codeBlocks \<and> codeBlocks ! index \<noteq> [] then codeBlocks ! index
         else match)"

definition restoreCodeBlocks :: "string \<Rightarrow> string list \<Rightarrow> string" where
  "restoreCodeBlocks text codeBlocks =
     (let result = re_replace (placeholder_re ''__INLINE_CODE_'')
                     (restore_cb ''__INLINE_CODE_'' codeBlocks) text
      in re_replace (placeholder_re ''__FENCED_CODE_'')
           (restore_cb ''__FENCED_CODE_'' codeBlocks) result)"


section \<open>Block Processor\<close>

text \<open>
  The Markdown Bridge is \<^verbatim>\<open>marked.parse\<close>, a library outside the repository: a parameter
  \<open>m\<close> of every function that calls it. Each function returns, next to its result, the
  texts it has passed to the Bridge, in the order of the calls.
\<close>

type_synonym bridge = "string \<Rightarrow> string"

type_synonym logged = "string \<times> string list"

text \<open>\<^verbatim>\<open>processAngleBlocks\<close>, with the function it calls for the content of a block
  (\<^verbatim>\<open>this.processAllBlocks\<close>) as the parameter \<open>inner\<close>. Both branches of the body of its
  \<^verbatim>\<open>while\<close> loop end in \<^verbatim>\<open>break\<close>, so only the first match of the pattern is looked at.\<close>

definition processAngleBlocks_in ::
  "(string \<Rightarrow> logged option) \<Rightarrow> bridge \<Rightarrow> string \<Rightarrow> logged option" where
  "processAngleBlocks_in inner m text =
     (case re_search angleBlockRegex text of
        None \<Rightarrow> Some (text, [])
      | Some (startIndex, len) \<Rightarrow>
          (let fullMatch = slice text startIndex (startIndex + len);
               classes = trim (slice fullMatch 3 (len - 1))
           in case findMatchingClosingTag text startIndex fullMatch of
                None \<Rightarrow> Some (text, [])
              | Some closingIndex \<Rightarrow>
                  (let contentStart = startIndex + length fullMatch;
                       actualContent = slice text contentStart closingIndex;
                       endIndex = closingIndex + 4
                   in case inner actualContent of
                        None \<Rightarrow> None
                      | Some (processedContent, calls) \<Rightarrow>
                          (let parsedContent = m processedContent;
                               beforeBlock = take startIndex text;
                               afterBlock = drop endIndex text
                           in Some (beforeBlock @ ''<div class='' @ [CHR 0x22] @ classes
                                      @ [CHR 0x22] @ ''>'' @ parsedContent @ ''</div>''
                                      @ afterBlock,
                                    calls @ [processedContent])))))"

text \<open>The \<^verbatim>\<open>while (hasChanges && iterations < maxIterations)\<close> loop of
  \<^verbatim>\<open>processAllBlocks\<close>.\<close>

definition maxIterations :: nat where
  "maxIterations = 20"

function blocks_loop ::
  "(string \<Rightarrow> logged option) \<Rightarrow> string \<Rightarrow> bool \<Rightarrow> nat \<Rightarrow> string list \<Rightarrow> logged option" where
  "blocks_loop pab result hasChanges iterations calls =
     (if hasChanges \<and> iterations < maxIterations then
        (case pab result of
           None \<Rightarrow> None
         | Some (angleProcessed, cs) \<Rightarrow>
             if angleProcessed \<noteq> result
             then blocks_loop pab angleProcessed True (Suc iterations) (calls @ cs)
             else blocks_loop pab result False (Suc iterations) (calls @ cs))
      else Some (result, calls))"
  by pat_completeness auto
termination
  by (relation "measure (\<lambda>(pab, result, hasChanges, iterations, calls). maxIterations - iterations)")
     auto

declare blocks_loop.simps [simp del]

text \<open>The clean-up pattern \<^verbatim>\<open>/<>'[^']*'[\s\S]*?(?=<>'|<\/>|$)/g\<close>: an opening marker, then
  the shortest run that ends before the next \<^verbatim>\<open><>'\<close>, the next \<^verbatim>\<open></>\<close> or the end of
  the text.\<close>

fun lazy_run :: "string \<Rightarrow> nat" where
  "lazy_run [] = 0"
| "lazy_run (c # cs) =
     (if prefix opener (c # cs) \<or> prefix ''</>'' (c # cs) then 0 else Suc (lazy_run cs))"

definition cleanup_re :: matcher where
  "cleanup_re s =
     (case opening_re s of Some l \<Rightarrow> Some (l + lazy_run (drop l s)) | None \<Rightarrow> None)"

definition remove_unprocessed :: "string \<Rightarrow> string" where
  "remove_unprocessed result =
     re_replace closing_re (\<lambda>_. []) (re_replace cleanup_re (\<lambda>_. []) result)"

text \<open>\<^verbatim>\<open>processAllBlocks\<close>, again with its own recursive use as the parameter \<open>inner\<close>.\<close>

definition processAllBlocks_in ::
  "(string \<Rightarrow> logged option) \<Rightarrow> bridge \<Rightarrow> string \<Rightarrow> logged option" where
  "processAllBlocks_in inner m text =
     (let (protectedText, codeBlocks) = protectCodeBlocks text
      in case blocks_loop (processAngleBlocks_in inner m) protectedText True 0 [] of
           None \<Rightarrow> None
         | Some (result, calls) \<Rightarrow>
             (let cleaned = (if includes_str result opener then remove_unprocessed result
                             else result)
              in Some (restoreCodeBlocks cleaned codeBlocks, calls)))"

text \<open>
  \<^verbatim>\<open>processAllBlocks\<close> and \<^verbatim>\<open>processAngleBlocks\<close> call each other, on a text that the
  Bridge has produced; nothing in the code bounds the depth of this recursion for an
  arbitrary Bridge. The model bounds it by a fuel: \<^const>\<open>None\<close> is a recursion deeper than
  the fuel.
\<close>

primrec processAllBlocks :: "nat \<Rightarrow> bridge \<Rightarrow> string \<Rightarrow> logged option" where
  "processAllBlocks 0 m text = None"
| "processAllBlocks (Suc fuel) m text = processAllBlocks_in (processAllBlocks fuel m) m text"

definition processAngleBlocks :: "nat \<Rightarrow> bridge \<Rightarrow> string \<Rightarrow> logged option" where
  "processAngleBlocks fuel m text = processAngleBlocks_in (processAllBlocks fuel m) m text"

subsection \<open>Partition into containers and plain text\<close>

abbreviation div_class :: string where
  "div_class \<equiv> ''<div class='' @ [CHR 0x22]"

lemma indexOf_ge: "indexOf s p i = Some k \<Longrightarrow> i \<le> k"
  by (auto simp: indexOf_def split: option.splits)

text \<open>The \<^verbatim>\<open>while\<close> loop of \<^verbatim>\<open>findMatchingDivEnd\<close>; \<^verbatim>\<open>depth\<close> is a number that the
  code decrements without a test, an \<^typ>\<open>int\<close>. The last \<^verbatim>\<open>else break\<close> of the code
  cannot be reached.\<close>

function div_loop :: "string \<Rightarrow> nat \<Rightarrow> int \<Rightarrow> nat option" where
  "div_loop text i depth =
     (if i < length text then
        (case indexOf text ''<div'' i of
           None \<Rightarrow>
             (case indexOf text ''</div>'' i of
                None \<Rightarrow> None
              | Some divEnd \<Rightarrow>
                  if depth - 1 = 0 then Some divEnd else div_loop text (divEnd + 6) (depth - 1))
         | Some divStart \<Rightarrow>
             (case indexOf text ''</div>'' i of
                None \<Rightarrow> div_loop text (divStart + 4) (depth + 1)
              | Some divEnd \<Rightarrow>
                  if divStart < divEnd then div_loop text (divStart + 4) (depth + 1)
                  else if depth - 1 = 0 then Some divEnd
                  else div_loop text (divEnd + 6) (depth - 1)))
      else None)"
  by pat_completeness auto
termination
  by (relation "measure (\<lambda>(text, i, depth). length text - i)") (auto dest!: indexOf_ge)

declare div_loop.simps [simp del]

definition findMatchingDivEnd :: "string \<Rightarrow> nat \<Rightarrow> nat option" where
  "findMatchingDivEnd text startIndex = div_loop text startIndex 0"

lemma div_loop_ge: "div_loop s i depth = Some e \<Longrightarrow> i \<le> e"
proof (induction s i depth rule: div_loop.induct)
  case (1 s i depth)
  have ge: "\<And>p k. indexOf s p i = Some k \<Longrightarrow> i \<le> k"
    by (rule indexOf_ge)
  from "1.prems" have inside: "i < length s"
    unfolding div_loop.simps [of s i depth] by (simp split: if_splits)
  show ?case
  proof (cases "indexOf s ''<div'' i")
    case None
    with "1.prems" "1.IH"(1) inside ge [of "''</div>''"] show ?thesis
      unfolding div_loop.simps [of s i depth]
      by (fastforce split: option.splits if_splits)
  next
    case (Some divStart)
    with "1.prems" "1.IH"(2,3,4) [OF inside Some] inside ge [of "''</div>''"] ge [OF Some]
    show ?thesis
      unfolding div_loop.simps [of s i depth]
      by (fastforce split: option.splits if_splits)
  qed
qed

text \<open>The \<^verbatim>\<open>while\<close> loop of \<^verbatim>\<open>splitByDivsAndProcessMarkdown\<close>. The loop cuts the text into
  pieces. A piece is handed to \<^verbatim>\<open>marked.parse\<close> and the result appended to \<^verbatim>\<open>result\<close>, or it
  is blank and nothing is appended, or it is a container and is appended itself: the loop
  is modelled by the list of these pieces, and the result by rendering them.\<close>

datatype segment = Markdown string | Blank string | Raw string

definition markdown_part :: "string \<Rightarrow> segment list" where
  "markdown_part s = (if trim s \<noteq> [] then [Markdown s] else [Blank s])"

function split_loop :: "string \<Rightarrow> nat \<Rightarrow> segment list" where
  "split_loop text i =
     (if i < length text then
        (case indexOf text div_class i of
           None \<Rightarrow> markdown_part (drop i text)
         | Some divStart \<Rightarrow>
             markdown_part (slice text i divStart) @
             (case findMatchingDivEnd text divStart of
                None \<Rightarrow> markdown_part (drop divStart text)
              | Some divEnd \<Rightarrow>
                  Raw (slice text divStart (divEnd + 6)) # split_loop text (divEnd + 6)))
      else [])"
  by pat_completeness auto
termination
  by (relation "measure (\<lambda>(text, i). length text - i)")
     (auto simp: findMatchingDivEnd_def dest!: indexOf_ge div_loop_ge)

declare split_loop.simps [simp del]

fun render :: "bridge \<Rightarrow> segment \<Rightarrow> string" where
  "render m (Markdown s) = m s"
| "render m (Blank s) = []"
| "render m (Raw s) = s"

fun bridged :: "segment \<Rightarrow> string list" where
  "bridged (Markdown s) = [s]"
| "bridged (Blank s) = []"
| "bridged (Raw s) = []"

text \<open>The characters of a piece.\<close>

fun piece :: "segment \<Rightarrow> string" where
  "piece (Markdown s) = s"
| "piece (Blank s) = s"
| "piece (Raw s) = s"

definition splitByDivsAndProcessMarkdown :: "bridge \<Rightarrow> string \<Rightarrow> logged" where
  "splitByDivsAndProcessMarkdown m text =
     (let segments = split_loop text 0
      in (concat (map (render m) segments), concat (map bridged segments)))"

text \<open>\<^verbatim>\<open>parse\<close>; its \<^verbatim>\<open>_options\<close> are not used, and \<^verbatim>\<open>processMarkdownOutsideDivs\<close>
  only calls \<^verbatim>\<open>splitByDivsAndProcessMarkdown\<close>.\<close>

definition parse :: "nat \<Rightarrow> bridge \<Rightarrow> string \<Rightarrow> logged option" where
  "parse fuel m text =
     (if trim text = [] then Some ([], [])
      else
        (case processAllBlocks fuel m text of
           None \<Rightarrow> None
         | Some (processed, calls) \<Rightarrow>
             (let (html, calls') = splitByDivsAndProcessMarkdown m processed
              in Some (html, calls @ calls'))))"

text \<open>A stand-in for the Bridge on a line of plain text: a paragraph of the trimmed line.\<close>

definition sample_bridge :: bridge where
  "sample_bridge s = ''<p>'' @ trim s @ ''</p>'' @ [CHR 0x0A]"


section \<open>Notions of the proofs\<close>

text \<open>A callback is fresh for a set of characters when every replacement it returns is
  non-empty and has none of these characters. A text made of these characters only that
  occurs in the result of the replacement then occurs in the text that was given.\<close>

definition fresh :: "(string \<Rightarrow> 's \<Rightarrow> string \<times> 's) \<Rightarrow> char set \<Rightarrow> bool" where
  "fresh f B = (\<forall>x st. fst (f x st) \<noteq> [] \<and> set (fst (f x st)) \<inter> B = {})"

text \<open>The characters of the markers \<^verbatim>\<open><>'\<close> and \<^verbatim>\<open></>\<close>.\<close>

definition markers :: "char set" where
  "markers = {CHR ''<'', CHR ''>'', CHR ''/'', quote}"

text \<open>A sequence of unterminated blocks: one or more times an opening marker \<^verbatim>\<open><>'\<close>, a
  class list, which is any text without quote, the closing quote, and a content in which
  \<^verbatim>\<open><>'\<close> does not occur.\<close>

inductive unterminated_blocks :: "string \<Rightarrow> bool" where
  single: "quote \<notin> set cls \<Longrightarrow> \<not> sublist opener content
           \<Longrightarrow> unterminated_blocks (opener @ cls @ [quote] @ content)"
| more: "quote \<notin> set cls \<Longrightarrow> \<not> sublist opener content \<Longrightarrow> unterminated_blocks rest
           \<Longrightarrow> unterminated_blocks (opener @ cls @ [quote] @ content @ rest)"


section \<open>Properties of searching and replacing\<close>

subsection \<open>Searching\<close>

lemma re_search_None: "re_search m s = None \<Longrightarrow> k \<le> length s \<Longrightarrow> m (drop k s) = None"
proof (induction s arbitrary: k)
  case Nil
  then show ?case by (simp split: option.splits)
next
  case (Cons c cs)
  then show ?case by (cases k) (auto split: option.splits)
qed

lemma re_search_first:
  "\<forall>k < n. m (drop k s) = None \<Longrightarrow> n \<le> length s \<Longrightarrow> m (drop n s) = Some l
   \<Longrightarrow> re_search m s = Some (n, l)"
proof (induction s arbitrary: n)
  case Nil
  then show ?case by simp
next
  case (Cons c cs)
  show ?case
  proof (cases n)
    case 0
    with Cons.prems show ?thesis by simp
  next
    case (Suc n')
    from Cons.prems Suc have "m (c # cs) = None" by force
    moreover from Cons.prems Suc have "\<forall>k < n'. m (drop k cs) = None" by force
    with Cons.IH [of n'] Cons.prems Suc have "re_search m cs = Some (n', l)" by simp
    ultimately show ?thesis using Suc by simp
  qed
qed

lemma sublist_drop_prefix: "prefix w (drop k s) \<Longrightarrow> sublist w s"
  by (meson prefix_imp_sublist sublist_drop sublist_order.order.trans)

lemma lit_Some: "lit p s = Some l \<longleftrightarrow> prefix p s \<and> l = length p"
  by (auto simp: lit_def)

lemma lit_None: "lit p s = None \<longleftrightarrow> \<not> prefix p s"
  by (auto simp: lit_def)

lemma lit_search_None: "re_search (lit p) s = None \<Longrightarrow> \<not> sublist p s"
proof (induction s)
  case Nil
  then show ?case by (auto simp: lit_def split: option.splits if_splits)
next
  case (Cons c cs)
  then show ?case
    by (auto simp: lit_def sublist_Cons_right split: option.splits if_splits)
qed

lemma no_sublist_search: "\<not> sublist p s \<Longrightarrow> re_search (lit p) s = None"
proof (cases "re_search (lit p) s")
  case None
  then show ?thesis .
next
  case (Some a)
  assume no: "\<not> sublist p s"
  obtain k l where "re_search (lit p) s = Some (k, l)" using Some by (cases a) auto
  from re_search_Some [OF this] have "prefix p (drop k s)"
    by (auto simp: lit_Some)
  with no sublist_drop_prefix show ?thesis by blast
qed

lemma lit_search_Some:
  "p \<noteq> [] \<Longrightarrow> re_search (lit p) s = Some (k, l)
   \<Longrightarrow> \<not> sublist p (take k s) \<and> prefix p (drop k s) \<and> k \<le> length s"
proof (induction s arbitrary: k)
  case Nil
  then show ?case by (auto simp: lit_Some split: option.splits if_splits)
next
  case (Cons c cs)
  show ?case
  proof (cases "prefix p (c # cs)")
    case True
    then have "lit p (c # cs) = Some (length p)" by (simp add: lit_Some)
    with Cons.prems True show ?thesis by auto
  next
    case False
    then have "lit p (c # cs) = None" by (simp add: lit_None)
    with Cons.prems obtain k' where k': "re_search (lit p) cs = Some (k', l)" "k = Suc k'"
      by (auto split: option.splits)
    from Cons.IH [OF Cons.prems(1) k'(1)]
    have ih: "\<not> sublist p (take k' cs)" "prefix p (drop k' cs)" "k' \<le> length cs" by auto
    have "\<not> prefix p (c # take k' cs)"
    proof
      assume "prefix p (c # take k' cs)"
      moreover have "prefix (c # take k' cs) (c # cs)" by (simp add: take_is_prefix)
      ultimately have "prefix p (c # cs)" by (rule prefix_order.trans)
      with False show False by simp
    qed
    with ih k'(2) show ?thesis by (simp add: sublist_Cons_right)
  qed
qed

subsection \<open>Replacing\<close>

lemma re_replace_st_skip: "re_replace_st m f k s st = re_replace_st m f 0 (drop k s) st"
proof (induction s arbitrary: k)
  case Nil
  then show ?case by simp
next
  case (Cons c cs)
  then show ?case by (cases k) simp_all
qed

lemma re_replace_st_no_match:
  "\<forall>k < length xs. m (drop k xs @ ys) = None
   \<Longrightarrow> re_replace_st m f 0 (xs @ ys) st =
       (xs @ fst (re_replace_st m f 0 ys st), snd (re_replace_st m f 0 ys st))"
proof (induction xs)
  case Nil
  then show ?case by simp
next
  case (Cons c cs)
  from Cons.prems have "m (c # cs @ ys) = None" by force
  moreover from Cons.prems have "\<forall>k < length cs. m (drop k cs @ ys) = None" by force
  ultimately show ?case using Cons.IH by (simp add: Let_def split: prod.splits)
qed

lemma replace_prefix:
  "fresh f B \<Longrightarrow> set w \<subseteq> B \<Longrightarrow> prefix w (fst (re_replace_st m f 0 s st)) \<Longrightarrow> prefix w s"
proof (induction s arbitrary: w st)
  case Nil
  then show ?case by simp
next
  case (Cons c cs)
  show ?case
  proof (cases w)
    case Nil
    then show ?thesis by simp
  next
    case (Cons a w')
    show ?thesis
    proof (cases "m (c # cs)")
      case None
      with Cons.prems(3) Cons have "a = c" "prefix w' (fst (re_replace_st m f 0 cs st))"
        by (auto simp: Let_def split: prod.splits)
      with Cons.IH [of w' st] Cons.prems(1,2) Cons show ?thesis by simp
    next
      case (Some l)
      obtain r st' where r: "f (take l (c # cs)) st = (r, st')" by force
      from Cons.prems(1) r have "r \<noteq> []" "set r \<inter> B = {}" unfolding fresh_def
        by (metis fst_conv)+
      moreover from Cons.prems(3) Some r Cons have "prefix (a # w') (r @ fst (re_replace_st m f (l - 1) cs st'))"
        by (auto simp: Let_def split: prod.splits)
      ultimately have "a \<in> set r" by (cases r) auto
      with \<open>set r \<inter> B = {}\<close> Cons.prems(2) Cons show ?thesis by auto
    qed
  qed
qed

lemma sublist_past:
  "w \<noteq> [] \<Longrightarrow> set w \<inter> set r = {} \<Longrightarrow> sublist w (r @ ys) \<Longrightarrow> sublist w ys"
proof (induction r)
  case Nil
  then show ?case by simp
next
  case (Cons a r)
  from Cons.prems(1,2) have "\<not> prefix w (a # r @ ys)" by (cases w) auto
  with Cons.prems(3) have "sublist w (r @ ys)" by (simp add: sublist_Cons_right)
  with Cons.IH Cons.prems(1,2) show ?case by simp
qed

lemma replace_sublist:
  "fresh f B \<Longrightarrow> set w \<subseteq> B \<Longrightarrow> w \<noteq> [] \<Longrightarrow> sublist w (fst (re_replace_st m f 0 s st))
   \<Longrightarrow> sublist w s"
proof (induction "length s" arbitrary: s st rule: less_induct)
  case less
  show ?case
  proof (cases s)
    case Nil
    with less.prems show ?thesis by simp
  next
    case (Cons c cs)
    show ?thesis
    proof (cases "m (c # cs)")
      case None
      with less.prems(4) Cons
      have "prefix w (fst (re_replace_st m f 0 s st)) \<or> sublist w (fst (re_replace_st m f 0 cs st))"
        by (auto simp: Let_def sublist_Cons_right split: prod.splits)
      then show ?thesis
      proof
        assume "prefix w (fst (re_replace_st m f 0 s st))"
        from replace_prefix [OF less.prems(1,2) this] show ?thesis by simp
      next
        assume "sublist w (fst (re_replace_st m f 0 cs st))"
        from less.hyps [OF _ less.prems(1,2,3) this] Cons have "sublist w cs" by simp
        with Cons show ?thesis by (simp add: sublist_Cons_right)
      qed
    next
      case (Some l)
      obtain r st' where r: "f (take l (c # cs)) st = (r, st')" by force
      from less.prems(1) r have "set r \<inter> B = {}" unfolding fresh_def by (metis fst_conv)
      with less.prems(2) have disj: "set w \<inter> set r = {}" by auto
      from less.prems(4) Some r Cons
      have "sublist w (r @ fst (re_replace_st m f 0 (drop (l - 1) cs) st'))"
        using re_replace_st_skip [of m f "l - 1" cs st']
        by (auto simp: Let_def split: prod.splits)
      from sublist_past [OF less.prems(3) disj this]
      have "sublist w (fst (re_replace_st m f 0 (drop (l - 1) cs) st'))" .
      from less.hyps [OF _ less.prems(1,2,3) this] Cons have "sublist w (drop (l - 1) cs)" by simp
      then have "sublist w cs" by (meson sublist_drop sublist_order.order.trans)
      with Cons show ?thesis by (simp add: sublist_Cons_right)
    qed
  qed
qed


section \<open>Properties of the Paginator\<close>

subsection \<open>Rounding\<close>

text \<open>\<^verbatim>\<open>90 * 0.7\<close> is the double \<open>8866461766385663 / 2 ^ 47\<close>, below 63, and
  \<^verbatim>\<open>Math.ceil(1160 / 1123)\<close> is 2. A quotient just above 1 is rounded to 1 before the
  ceiling is taken.\<close>

lemma nearest_double_examples:
  "nearest_double (90 * double_0_7) (2 ^ 52) = (8866461766385663, - 47)
   \<and> exceeds_0_7 63 90 \<and> \<not> exceeds_0_7 62 90 \<and> \<not> exceeds_0_7 7 10 \<and> exceeds_0_7 8 10
   \<and> ceil_quotient 1160 1123 = 2 \<and> ceil_quotient 6 3 = 2 \<and> ceil_quotient 7 3 = 3
   \<and> ceil_quotient (2 ^ 60 + 1) (2 ^ 60) = 1"
  by code_simp

lemma round_half_even_le:
  assumes "0 < d" "n \<le> d * k"
  shows "round_half_even n d \<le> k"
proof (cases "n div d < k")
  case True
  then show ?thesis by (simp add: round_half_even_def Let_def)
next
  case False
  from assms have "n div d \<le> (d * k) div d" by (intro zdiv_mono1) simp_all
  with assms(1) have "n div d \<le> k" by simp
  with False have q: "n div d = k" by simp
  have "d * (n div d) + n mod d = n" by simp
  with q assms have "n mod d \<le> 0" by simp
  moreover from assms(1) have "0 \<le> n mod d" by simp
  ultimately have "n mod d = 0" by simp
  with q assms(1) show ?thesis by (simp add: round_half_even_def Let_def)
qed

lemma round_half_even_zero:
  assumes "0 \<le> n" "0 < d" "2 * n \<le> d"
  shows "round_half_even n d = 0"
proof -
  from assms have "n < d" by arith
  with assms show ?thesis by (auto simp: round_half_even_def Let_def)
qed

lemma ceil_quotient_le_one:
  assumes "0 \<le> n" "0 < d" "n \<le> d"
  shows "ceil_quotient n d \<le> 1"
proof -
  have *: "ceil_double (round_half_even (fst (scale n d s)) (snd (scale n d s)), - s) \<le> 1"
    for s
  proof (cases "0 \<le> s")
    case True
    from assms have sig: "round_half_even (n * 2 ^ nat s) d \<le> 2 ^ nat s"
      by (intro round_half_even_le) simp_all
    have up: "- ((- sig) div 2 ^ k) \<le> 1" if "sig \<le> 2 ^ k" for sig :: int and k :: nat
    proof -
      from that have "(- (2 ^ k)) div 2 ^ k \<le> (- sig) div (2 ^ k :: int)"
        by (intro zdiv_mono1) simp_all
      moreover have "(- (2 ^ k)) div (2 ^ k :: int) = - 1"
        by (simp add: zdiv_zminus1_eq_if)
      ultimately show ?thesis by simp
    qed
    show ?thesis
    proof (cases "s = 0")
      case True
      have "(1::int) < 2 ^ 1024" by simp
      with sig True show ?thesis
        by (auto simp: scale_def ceil_double_def one_enat_def)
    next
      case False
      with True up [OF sig] show ?thesis
        by (auto simp: scale_def ceil_double_def one_enat_def)
    qed
  next
    case False
    then have "0 < nat (- s)" by simp
    then have "(2::int) \<le> 2 ^ nat (- s)"
      by (metis One_nat_def Suc_leI one_le_numeral power_increasing power_one_right)
    with assms have "n * 2 \<le> d * 2 ^ nat (- s)"
      by (intro mult_mono) simp_all
    then have "2 * n \<le> d * 2 ^ nat (- s)" by simp
    with assms have "round_half_even n (d * 2 ^ nat (- s)) = 0"
      by (intro round_half_even_zero) simp_all
    with False show ?thesis
      by (simp add: scale_def ceil_double_def zero_enat_def[symmetric])
  qed
  show ?thesis
    unfolding ceil_quotient_def nearest_double_def Let_def by (rule *)
qed

subsection \<open>The loop\<close>

lemma pages_loop_fin:
  assumes "int n \<le> max_array_length" "length pages = i"
  shows "pages_loop html (enat n) cpp i pages
           = Inr (pages @ map (page_at html (enat n) cpp) [i..<n])"
  using assms
proof (induction "n - i" arbitrary: i pages)
  case 0
  then show ?case by (subst pages_loop.simps) simp
next
  case (Suc k)
  then have lt: "i < n" and k: "k = n - Suc i" by arith+
  from lt Suc.prems have len: "int (length pages) < max_array_length" by simp
  have "pages_loop html (enat n) cpp (Suc i) (pages @ [page_at html (enat n) cpp i])
          = Inr ((pages @ [page_at html (enat n) cpp i])
                 @ map (page_at html (enat n) cpp) [Suc i..<n])"
    using Suc.prems by (intro Suc.hyps(1)[OF k]) simp_all
  then show ?case
    using lt len by (subst pages_loop.simps) (simp add: upt_conv_Cons)
qed

text \<open>When more pages are needed than an array holds, the loop ends with the error.\<close>

lemma pages_loop_overflow:
  assumes "enat (nat max_array_length) < pn" "length pages = i" "int i \<le> max_array_length"
  shows "pages_loop html pn cpp i pages = Inl RangeError"
  using assms
proof (induction "nat max_array_length - i" arbitrary: i pages)
  case 0
  then have "i = nat max_array_length" "int i = max_array_length" by simp_all
  with 0 show ?case by (subst pages_loop.simps) auto
next
  case (Suc k)
  then have lt: "int i < max_array_length" and k: "k = nat max_array_length - Suc i"
    by arith+
  from lt have "i < nat max_array_length" by simp
  with Suc.prems(1) have "enat i < pn"
    by (meson enat_ord_simps(2) less_trans)
  moreover have "pages_loop html pn cpp (Suc i) (pages @ [page_at html pn cpp i])
                   = Inl RangeError"
    using Suc.prems lt by (intro Suc.hyps(1)[OF k]) simp_all
  ultimately show ?case
    using lt Suc.prems(2) by (subst pages_loop.simps) simp
qed

lemma max_array_length_pos: "0 < max_array_length"
  by (simp add: max_array_length_def)

lemma estimate_ge: "200 \<le> estimateContentHeight html"
  by (simp add: estimateContentHeight_def)

lemma pagesNeeded_ge: "pagesNeeded html ph = Some pn \<Longrightarrow> 1 \<le> pn"
  by (auto simp: pagesNeeded_def Let_def split: number.splits if_splits)

lemma pagesNeeded_one:
  assumes "le_number (estimateContentHeight html) ph"
  shows "pagesNeeded html ph = Some 1"
proof (cases ph)
  case NaN
  with assms show ?thesis by (simp add: le_number_def)
next
  case (Infinity negative)
  then show ?thesis by (simp add: pagesNeeded_def)
next
  case (Double negative m e)
  with assms have pos: "\<not> negative"
    and le: "if 0 \<le> e then int (estimateContentHeight html) \<le> int m * 2 ^ nat e
             else int (estimateContentHeight html) * 2 ^ nat (- e) \<le> int m"
    by (simp_all add: le_number_def)
  from le estimate_ge [of html] have m: "m \<noteq> 0"
    by (cases "m = 0") (auto simp: mult_le_0_iff split: if_splits)
  show ?thesis
  proof (cases "0 \<le> e")
    case True
    with le m
    have "ceil_quotient (int (estimateContentHeight html)) (int m * 2 ^ nat e) \<le> 1"
      by (intro ceil_quotient_le_one) simp_all
    with True Double pos m show ?thesis by (simp add: pagesNeeded_def Let_def max_def)
  next
    case False
    with le m
    have "ceil_quotient (int (estimateContentHeight html) * 2 ^ nat (- e)) (int m) \<le> 1"
      by (intro ceil_quotient_le_one) simp_all
    with False Double pos m show ?thesis by (simp add: pagesNeeded_def Let_def max_def)
  qed
qed

lemma splitIntoPages_fin:
  assumes "pagesNeeded html ph = Some (enat k)" "int k \<le> max_array_length"
  shows "splitIntoPages html ph =
           Inr (if trim html = [] then [[]] else if k = 1 then [html]
                else map (page_at html (enat k) (contentPerPage html (enat k))) [0..<k])"
  using assms by (simp add: splitIntoPages_def pages_loop_fin one_enat_def)

lemma splitIntoPages_overflow:
  assumes "pagesNeeded html ph = Some pn" "enat (nat max_array_length) < pn"
  shows "splitIntoPages html ph = (if trim html = [] then Inr [[]] else Inl RangeError)"
proof -
  have max: "0 < max_array_length"
    by (simp add: max_array_length_def)
  then have "1 \<le> enat (nat max_array_length)"
    by (simp add: one_enat_def)
  with assms(2) have "pn \<noteq> 1" by auto
  with assms max show ?thesis by (simp add: splitIntoPages_def pages_loop_overflow)
qed

lemma slice_clamp: "slice html s (min (s + c) (length html)) = slice html s (s + c)"
  by (auto simp: slice_def min_def)

lemma page_at_prefix: "prefix (page_at html pn cpp i) (slice html (i * cpp) (i * cpp + cpp))"
  by (auto simp: page_at_def Let_def slice_clamp take_is_prefix)

lemma contentPerPage_one: "contentPerPage html (enat (Suc 0)) = length html"
  by (simp add: contentPerPage_def)

subsection \<open>The claims on the Paginator\<close>

lemma paragraphs_html_needs: "pagesNeeded paragraphs_html (number_of_nat 1123) = Some 2"
  by code_simp

lemma paragraphs_html_pages:
  "splitIntoPages paragraphs_html (number_of_nat 1123) =
     Inr [concat (replicate 6 (''<p>a</p>'' @ [CHR 0x0A])) @ ''<p>a</p>'',
          ''</p>'' @ [CHR 0x0A] @ concat (replicate 8 (''<p>a</p>'' @ [CHR 0x0A]))]"
  by code_simp

text \<open>
  C1, page round-trip: the concatenation of the fragments of \<^verbatim>\<open>splitIntoPages\<close> is the
  input, character for character. The code breaks it. For the sixteen paragraphs of
  \<^const>\<open>paragraphs_html\<close> (154 characters, estimate 1160, two pages of 77 characters) the
  first fragment is cut back to the end of the seventh paragraph, and the second still
  starts at character 77: the fifteen characters between them, a line break and
  \<^verbatim>\<open><p>hello world\<close>, are in no fragment.
\<close>

theorem splitIntoPages_drops_characters:
  "splitIntoPages paragraphs_html (number_of_nat 1123) =
     Inr [concat (replicate 6 (''<p>a</p>'' @ [CHR 0x0A])) @ ''<p>a</p>'',
          ''</p>'' @ [CHR 0x0A] @ concat (replicate 8 (''<p>a</p>'' @ [CHR 0x0A]))]
   \<and> length paragraphs_html = 154
   \<and> length (concat (projr (splitIntoPages paragraphs_html (number_of_nat 1123)))) = 139
   \<and> concat (projr (splitIntoPages paragraphs_html (number_of_nat 1123))) \<noteq> paragraphs_html"
proof -
  have len: "length paragraphs_html = 154" by code_simp
  have cat: "length (concat (projr (splitIntoPages paragraphs_html (number_of_nat 1123)))) = 139"
    by code_simp
  from len cat
  have "concat (projr (splitIntoPages paragraphs_html (number_of_nat 1123))) \<noteq> paragraphs_html"
    by auto
  with len cat paragraphs_html_pages show ?thesis by simp
qed

text \<open>
  C6, height estimate: 40 for every heading, 60 for every paragraph, 100 for every list,
  200 for every image, 150 for every code block and 80 for every blockquote, plus 200. The
  code counts the matches of \<^verbatim>\<open><p[^>]*>\<close> as paragraphs, and \<^verbatim>\<open><pre>\<close> is one of them: a
  code block, which has no paragraph, is estimated at 410 and not at 350.
\<close>

theorem estimateContentHeight_counts_pre_as_paragraph:
  "estimateContentHeight ''<pre><code>x</code></pre>'' = 410
   \<and> spec_estimateHeight ''<pre><code>x</code></pre>'' = 350"
  by code_simp

text \<open>
  C7, page count floor, amended: for every html and every page unit that is not \<^verbatim>\<open>NaN\<close>
  and for which the number of pages needed, the maximum of 1 and the ceiling of the
  estimate divided by the page unit, is at most \<open>2 ^ 32 - 1\<close>, the greatest length of an
  array, \<^verbatim>\<open>getPageCount\<close> returns an integer that is at least 1, and exactly 1 whenever the
  estimate is at most the page unit. The page unit is any other number: an integer or a
  fraction, negative, \<^verbatim>\<open>-0\<close> or an infinity.
\<close>

theorem getPageCount_floor:
  assumes "pagesNeeded html pageUnit = Some pn" and "pn \<le> enat (nat max_array_length)"
  shows "\<exists>n. getPageCount html pageUnit = Inr n \<and> 1 \<le> n \<and>
           (le_number (estimateContentHeight html) pageUnit \<longrightarrow> n = 1)"
proof -
  from assms(2) max_array_length_pos
  obtain k where pn: "pn = enat k" and k: "int k \<le> max_array_length"
    by (cases pn) (auto simp: le_nat_iff)
  from pagesNeeded_ge [OF assms(1)] pn have k1: "1 \<le> k" by (simp add: one_enat_def)
  have one: "k = 1" if "le_number (estimateContentHeight html) pageUnit"
    using pagesNeeded_one [OF that] assms(1) pn by (simp add: one_enat_def)
  show ?thesis
    using k1 one
    by (auto simp: getPageCount_def splitIntoPages_fin [OF assms(1)[unfolded pn] k])
qed

text \<open>With the page unit 561.5 the sixteen paragraphs need three pages, and a single
  paragraph fits the page of 1123.\<close>

theorem getPageCount_floor_witness:
  "getPageCount paragraphs_html (Double False 1123 (- 1)) = Inr 3
   \<and> getPageCount ''<p>a</p>'' (number_of_nat 1123) = Inr 1"
proof -
  have pn: "pagesNeeded paragraphs_html (Double False 1123 (- 1)) = Some 3"
    "pagesNeeded ''<p>a</p>'' (number_of_nat 1123) = Some 1"
    by code_simp+
  have le: "(1::enat) \<le> enat (nat max_array_length)"
    by (simp add: max_array_length_def one_enat_def)
  have est: "le_number (estimateContentHeight ''<p>a</p>'') (number_of_nat 1123)"
    by code_simp
  have three: "getPageCount paragraphs_html (Double False 1123 (- 1)) = Inr 3"
    by code_simp
  from getPageCount_floor [OF pn(2) le] est three show ?thesis by auto
qed

text \<open>
  With the page unit 0 the number of pages needed is \<^verbatim>\<open>Infinity\<close>, and with a page unit as
  small as \<open>2 ^ - 27\<close> it is above \<open>2 ^ 32 - 1\<close>: the array of pages grows to its greatest
  length and \<^verbatim>\<open>getPageCount\<close> throws. With the page unit \<^verbatim>\<open>NaN\<close> the number of pages needed
  is \<^verbatim>\<open>NaN\<close>, no page is made and \<^verbatim>\<open>getPageCount\<close> returns 0.
\<close>

theorem getPageCount_zero_counterexample:
  "getPageCount ''a'' (number_of_nat 0) = Inl RangeError
   \<and> getPageCount ''a'' (Double False 1 (- 27)) = Inl RangeError
   \<and> getPageCount ''a'' NaN = Inr 0"
proof -
  have t: "trim ''a'' \<noteq> []" by code_simp
  have zero: "pagesNeeded ''a'' (number_of_nat 0) = Some \<infinity>"
    by (simp add: pagesNeeded_def number_of_nat_def)
  have est: "estimateContentHeight ''a'' = 200" by code_simp
  have bits: "bit_length 26843545600 = 35" "bit_length 1 = 1"
    by (simp_all add: bit_length.simps)
  have "nearest_double 26843545600 1 = (7036874417766400, - 18)"
    by (simp add: nearest_double_def bits scale_def round_half_even_def Let_def)
  moreover have "ceil_double (7036874417766400, - 18) = enat 26843545600"
    by (simp add: ceil_double_def)
  ultimately have "ceil_quotient (200 * 2 ^ 27) 1 = enat 26843545600"
    by (simp add: ceil_quotient_def)
  moreover have "max 1 (enat 26843545600) = enat 26843545600"
    by (simp add: max_def one_enat_def)
  ultimately have small: "pagesNeeded ''a'' (Double False 1 (- 27)) = Some (enat 26843545600)"
    by (simp add: pagesNeeded_def est)
  have big: "enat (nat max_array_length) < enat 26843545600"
    by (simp add: max_array_length_def)
  have nan: "pagesNeeded ''a'' NaN = None" by (simp add: pagesNeeded_def)
  show ?thesis
    using t splitIntoPages_overflow [OF zero] splitIntoPages_overflow [OF small big] nan
    by (simp add: getPageCount_def splitIntoPages_def)
qed

text \<open>
  C10, fragments: every fragment that \<^verbatim>\<open>splitIntoPages\<close> returns is a contiguous part of
  the html, and the fragment of page \<open>i\<close> begins at character \<open>i * share\<close>, where \<open>share\<close>
  is the computed number of characters per page: it is a prefix of the slice from
  \<open>i * share\<close> to \<open>i * share + share\<close>, so that cutting at a snapped boundary shortens
  its end and leaves its start. The call returns its fragments for every page height
  with which an array can hold the pages needed; with \<^verbatim>\<open>NaN\<close>, where no share is
  computed, the only fragment there can be is the empty one of a blank html.
\<close>

theorem fragment_starts:
  "((case pagesNeeded html pageHeight of
       None \<Rightarrow> True | Some pn \<Rightarrow> pn \<le> enat (nat max_array_length))
      \<longrightarrow> (\<exists>pages. splitIntoPages html pageHeight = Inr pages))
   \<and> (\<forall>pages i. splitIntoPages html pageHeight = Inr pages \<longrightarrow> i < length pages \<longrightarrow>
          (let share = (case pagesNeeded html pageHeight of
                          None \<Rightarrow> 0 | Some pn \<Rightarrow> contentPerPage html pn)
           in prefix (pages ! i) (slice html (i * share) (i * share + share))))"
proof (cases "pagesNeeded html pageHeight")
  case None
  then show ?thesis by (auto simp: splitIntoPages_def)
next
  case (Some pn)
  show ?thesis
  proof (cases "pn \<le> enat (nat max_array_length)")
    case False
    then have "enat (nat max_array_length) < pn" by simp
    from splitIntoPages_overflow [OF Some this] Some False show ?thesis
      by (auto split: if_splits)
  next
    case True
    with max_array_length_pos
    obtain k where pn: "pn = enat k" and k: "int k \<le> max_array_length"
      by (cases pn) (auto simp: le_nat_iff)
    note fin = splitIntoPages_fin [OF Some[unfolded pn] k]
    show ?thesis
    proof (cases "trim html = [] \<or> k = 1")
      case True
      then show ?thesis
        by (auto simp: fin Some pn contentPerPage_one slice_def)
    next
      case False
      then show ?thesis
        by (auto simp: fin Some pn page_at_prefix)
    qed
  qed
qed

theorem fragment_starts_witness:
  "\<exists>pages. splitIntoPages paragraphs_html (number_of_nat 1123) = Inr pages
     \<and> length pages = 2 \<and> prefix (pages ! 1) (slice paragraphs_html 77 154)"
proof -
  have share: "contentPerPage paragraphs_html 2 = 77"
    by code_simp
  have "(1::nat) < 2" by simp
  with fragment_starts [of paragraphs_html "number_of_nat 1123"] paragraphs_html_pages
  have "prefix (projr (splitIntoPages paragraphs_html (number_of_nat 1123)) ! 1)
          (slice paragraphs_html (1 * 77) (1 * 77 + 77))"
    unfolding paragraphs_html_needs option.case share Let_def
    by (metis length_Cons list.size(3) numeral_2_eq_2 sum.sel(2))
  with paragraphs_html_pages show ?thesis by simp
qed

section \<open>Properties of the Delimiter Matcher\<close>





subsection \<open>The loop and the marks\<close>











section \<open>Properties of the Code Guard\<close>


lemma digit_char_is_digit: "d < 10 \<Longrightarrow> is_digit (digit_char d)"
  by (simp add: is_digit_def digit_char_def)

lemma show_nat_digits: "c \<in> set (show_nat n) \<Longrightarrow> is_digit c"
proof (induction n rule: show_nat.induct)
  case (1 n)
  show ?case
  proof (cases "n < 10")
    case True
    with "1.prems" show ?thesis
      by (subst (asm) show_nat.simps) (simp add: digit_char_is_digit)
  next
    case False
    with "1.prems" have "c \<in> set (show_nat (n div 10)) \<or> c = digit_char (n mod 10)"
      by (subst (asm) show_nat.simps) auto
    with "1.IH" [OF False] show ?thesis by (auto simp: digit_char_is_digit)
  qed
qed
lemma digit_not_marker: "is_digit c \<Longrightarrow> c \<notin> markers"
  by (auto simp: is_digit_def markers_def)

lemma fresh_protect_cb:
  assumes "set pre \<inter> markers = {}"
  shows "fresh (protect_cb pre) markers"
proof -
  have "set (show_nat n) \<inter> markers = {}" for n
    using show_nat_digits digit_not_marker by blast
  moreover have "set ''__'' \<inter> markers = {}" by (simp add: markers_def)
  ultimately have "set (pre @ show_nat n @ ''__'') \<inter> markers = {}" for n
    using assms by (simp only: set_append Int_Un_distrib2) blast
  then show ?thesis by (simp add: fresh_def protect_cb_def)
qed

lemma protect_sublist:
  assumes "set w \<subseteq> markers" "w \<noteq> []" "sublist w (fst (protectCodeBlocks s))"
  shows "sublist w s"
proof -
  obtain inlined cb where one: "re_replace_st inline_re (protect_cb ''__INLINE_CODE_'') 0 s [] = (inlined, cb)"
    by force
  have f1: "fresh (protect_cb ''__INLINE_CODE_'') markers"
    by (rule fresh_protect_cb) (simp add: markers_def)
  have f2: "fresh (protect_cb ''__FENCED_CODE_'') markers"
    by (rule fresh_protect_cb) (simp add: markers_def)
  from assms(3) one have "sublist w (fst (re_replace_st fenced_re (protect_cb ''__FENCED_CODE_'') 0 inlined cb))"
    by (simp add: protectCodeBlocks_def)
  from replace_sublist [OF f2 assms(1,2) this] have "sublist w inlined" .
  with one have "sublist w (fst (re_replace_st inline_re (protect_cb ''__INLINE_CODE_'') 0 s []))"
    by simp
  from replace_sublist [OF f1 assms(1,2) this] show ?thesis .
qed

lemma inline_re_None: "s = [] \<or> hd s \<noteq> CHR ''`'' \<Longrightarrow> inline_re s = None"
  by (cases s) (auto simp: inline_re_def lit_until_def)

lemma fenced_re_None: "s = [] \<or> hd s \<noteq> CHR ''`'' \<Longrightarrow> fenced_re s = None"
  by (cases s) (auto simp: fenced_re_def)

lemma protect_head:
  assumes "CHR ''`'' \<notin> set h"
  shows "protectCodeBlocks (h @ s) = (h @ fst (protectCodeBlocks s), snd (protectCodeBlocks s))"
proof -
  have no: "hd (drop k h @ ys) \<noteq> CHR ''`''" if k: "k < length h" for k ys
  proof -
    from k have "h ! k \<in> set h" by simp
    with assms have "h ! k \<noteq> CHR ''`''" by metis
    with k show ?thesis by (simp add: hd_append hd_drop_conv_nth)
  qed
  have i: "\<forall>k < length h. inline_re (drop k h @ ys) = None" for ys
  proof (intro allI impI)
    fix k assume "k < length h"
    from no [OF this, of ys] show "inline_re (drop k h @ ys) = None"
      by (intro inline_re_None disjI2)
  qed
  have f: "\<forall>k < length h. fenced_re (drop k h @ ys) = None" for ys
  proof (intro allI impI)
    fix k assume "k < length h"
    from no [OF this, of ys] show "fenced_re (drop k h @ ys) = None"
      by (intro fenced_re_None disjI2)
  qed
  obtain inlined cb where one:
    "re_replace_st inline_re (protect_cb ''__INLINE_CODE_'') 0 s [] = (inlined, cb)"
    by force
  obtain fenced cb' where two:
    "re_replace_st fenced_re (protect_cb ''__FENCED_CODE_'') 0 inlined cb = (fenced, cb')"
    by force
  from one two have whole: "protectCodeBlocks s = (fenced, cb')"
    by (simp add: protectCodeBlocks_def)
  have "re_replace_st inline_re (protect_cb ''__INLINE_CODE_'') 0 (h @ s) [] = (h @ inlined, cb)"
    unfolding re_replace_st_no_match [OF i] one by simp
  moreover have "re_replace_st fenced_re (protect_cb ''__FENCED_CODE_'') 0 (h @ inlined) cb
                   = (h @ fenced, cb')"
    unfolding re_replace_st_no_match [OF f] two by simp
  ultimately have "protectCodeBlocks (h @ s) = (h @ fenced, cb')"
    unfolding protectCodeBlocks_def by simp
  with whole show ?thesis by simp
qed

lemma restore_empty: "restoreCodeBlocks [] cb = []"
  by (simp add: restoreCodeBlocks_def re_replace_def)


text \<open>
  C8, reversible substitution: \<^verbatim>\<open>restoreCodeBlocks\<close> gives back the text that
  \<^verbatim>\<open>protectCodeBlocks\<close> was given, for a text without placeholders. The code breaks it on
  a span fenced by four backquotes. The inline pattern takes \<^verbatim>\<open>`a`\<close> out of the inner
  backquotes, the fenced pattern then takes the rest, placeholder of the inline span
  included; \<^verbatim>\<open>restoreCodeBlocks\<close> replaces inline placeholders before it puts the fenced
  span back, so the inline placeholder inside the fenced span stays.
\<close>

theorem restoreCodeBlocks_leaves_placeholder:
  "protectCodeBlocks ''````a````'' = (''__FENCED_CODE_1__'', [''`a`'', ''```__INLINE_CODE_0__```''])
   \<and> restoreCodeBlocks ''__FENCED_CODE_1__'' [''`a`'', ''```__INLINE_CODE_0__```'']
       = ''```__INLINE_CODE_0__```''"
  by code_simp

section \<open>Properties of the Block Processor\<close>

lemma includes_str_iff: "includes_str s p \<longleftrightarrow> sublist p s"
  by (metis includes_str_def lit_search_None no_sublist_search)

lemma sublist_of_drop: "sublist w (drop k s) \<Longrightarrow> sublist w s"
  by (meson sublist_drop sublist_order.order.trans)

lemma scan_body_no_closer:
  "\<not> sublist ''</>'' s \<Longrightarrow> scan_body s i depth = Return None \<or> (\<exists>i' d'. scan_body s i depth = Continue i' d')"
proof -
  assume "\<not> sublist ''</>'' s"
  then have "\<not> sublist ''</>'' (drop i s)" using sublist_of_drop by blast
  then have "re_search closing_re (drop i s) = None"
    unfolding closing_re_def by (rule no_sublist_search)
  then show ?thesis by (auto simp: scan_body_def Let_def split: option.splits)
qed

lemma scan_loop_no_closer: "\<not> sublist ''</>'' s \<Longrightarrow> scan_loop s i depth = None"
proof (induction s i depth rule: scan_loop.induct)
  case (1 s i depth)
  show ?case
  proof (cases "i < length s \<and> 0 < depth")
    case False
    then show ?thesis by (subst scan_loop.simps) (simp only: if_False)
  next
    case True
    from scan_body_no_closer [OF "1.prems", of i depth] show ?thesis
    proof
      assume "scan_body s i depth = Return None"
      with True show ?thesis unfolding scan_loop.simps [of s i depth] by simp
    next
      assume "\<exists>i' d'. scan_body s i depth = Continue i' d'"
      then obtain i' d' where c: "scan_body s i depth = Continue i' d'" by blast
      from "1.IH" [OF True c "1.prems"] True c show ?thesis
        unfolding scan_loop.simps [of s i depth] by simp
    qed
  qed
qed

lemma processAngleBlocks_no_closer:
  "\<not> sublist ''</>'' s \<Longrightarrow> processAngleBlocks_in inner m s = Some (s, [])"
  by (auto simp: processAngleBlocks_in_def findMatchingClosingTag_def scan_loop_no_closer Let_def
        split: option.splits)

lemma angleBlockRegex_prefix: "angleBlockRegex t = Some l \<Longrightarrow> prefix opener t"
  unfolding angleBlockRegex_def lit_until_def by (simp split: if_splits)

lemma processAngleBlocks_no_opener:
  assumes "\<not> sublist opener s"
  shows "processAngleBlocks_in inner m s = Some (s, [])"
proof -
  have "re_search angleBlockRegex s = None"
  proof (cases "re_search angleBlockRegex s")
    case None
    then show ?thesis .
  next
    case (Some a)
    obtain k l where "re_search angleBlockRegex s = Some (k, l)" using Some by (cases a) auto
    from re_search_Some [OF this] have "prefix opener (drop k s)"
      by (auto dest: angleBlockRegex_prefix)
    with assms sublist_drop_prefix show ?thesis by blast
  qed
  then show ?thesis by (simp add: processAngleBlocks_in_def)
qed

lemma blocks_loop_unchanged:
  "pab s = Some (s, []) \<Longrightarrow> blocks_loop pab s True 0 [] = Some (s, [])"
  by (simp add: blocks_loop.simps [of pab s True 0] blocks_loop.simps [of pab s False "Suc 0"]
        maxIterations_def)

lemma trim_nonblank: "\<not> is_ws c \<Longrightarrow> trim (c # s) \<noteq> []"
proof -
  assume c: "\<not> is_ws c"
  then have "dropWhile is_ws (c # s) = c # s" by simp
  moreover have "dropWhile is_ws (rev s @ [c]) \<noteq> []"
    using c by (simp add: dropWhile_append)
  ultimately show ?thesis by (simp add: trim_def)
qed

lemma lazy_run_all:
  "\<not> sublist opener s \<Longrightarrow> \<not> sublist ''</>'' s \<Longrightarrow> lazy_run s = length s"
proof (induction s)
  case Nil
  then show ?case by simp
next
  case (Cons c cs)
  from Cons.prems have "\<not> prefix opener (c # cs)" "\<not> prefix ''</>'' (c # cs)"
    by (meson prefix_imp_sublist)+
  moreover from Cons.prems have "\<not> sublist opener cs" "\<not> sublist ''</>'' cs"
    by (simp_all add: sublist_Cons_right)
  ultimately show ?case using Cons.IH by simp
qed

lemma takeWhile_until: "c \<notin> set xs \<Longrightarrow> takeWhile (\<lambda>x. x \<noteq> c) (xs @ c # ys) = xs"
  by (induction xs) auto

lemma lit_until_match:
  "c \<notin> set xs \<Longrightarrow> lo \<le> length xs
   \<Longrightarrow> lit_until p c lo (p @ xs @ c # ys) = Some (length p + length xs + 1)"
  by (simp add: lit_until_def takeWhile_until)

lemma opening_re_match:
  "quote \<notin> set cls \<Longrightarrow> opening_re (opener @ cls @ quote # rest) = Some (length cls + 4)"
  using lit_until_match [of quote cls 0 opener rest] by (simp add: opening_re_def)

lemma re_replace_Nil: "re_replace m f [] = []"
  by (simp add: re_replace_def)

lemma re_replace_whole:
  "s \<noteq> [] \<Longrightarrow> m s = Some (length s) \<Longrightarrow> re_replace m f s = f s"
proof -
  assume ne: "s \<noteq> []" and whole: "m s = Some (length s)"
  then obtain c cs where s: "s = c # cs" by (cases s) auto
  have "re_replace_st m (\<lambda>x (u::unit). (f x, u)) (length cs) cs () = ([], ())"
    by (subst re_replace_st_skip) simp
  with whole s show ?thesis by (simp add: re_replace_def)
qed

lemma cleanup_single:
  assumes "quote \<notin> set cls" "\<not> sublist opener rest" "\<not> sublist ''</>'' rest"
  shows "re_replace cleanup_re (\<lambda>_. []) (opener @ cls @ quote # rest) = []"
proof -
  let ?p = "opener @ cls @ quote # rest"
  have "cleanup_re ?p = Some (length cls + 4 + lazy_run (drop (length cls + 4) ?p))"
    unfolding cleanup_re_def opening_re_match [OF assms(1)] by simp
  moreover have "drop (length cls + 4) ?p = rest"
  proof -
    have "length cls + 4 = length (opener @ cls @ [quote])" by simp
    then show ?thesis by (simp only: drop_append) simp
  qed
  ultimately have "cleanup_re ?p = Some (length ?p)"
    using lazy_run_all [OF assms(2,3)] by simp
  moreover have "?p \<noteq> []" by simp
  ultimately show "re_replace cleanup_re (\<lambda>_. []) ?p = []"
    by (rule re_replace_whole [rotated])
qed

lemma re_replace_match:
  assumes "m s = Some l" "0 < l" "s \<noteq> []"
  shows "re_replace m f s = f (take l s) @ re_replace m f (drop l s)"
proof -
  from assms(3) obtain c cs where s: "s = c # cs" by (cases s) auto
  from assms(2) have "drop (l - 1) cs = drop l (c # cs)" by (cases l) simp_all
  then have "re_replace_st m (\<lambda>x (u::unit). (f x, u)) (l - 1) cs ()
           = re_replace_st m (\<lambda>x (u::unit). (f x, u)) 0 (drop l (c # cs)) ()"
    by (subst re_replace_st_skip) simp
  with assms(1) s show ?thesis
    by (simp add: re_replace_def split: prod.splits)
qed

lemma no_straddle:
  assumes "\<not> sublist opener b" "b \<noteq> []"
  shows "\<not> prefix opener (b @ opener @ ys)"
proof (cases b)
  case Nil
  with assms(2) show ?thesis by simp
next
  case one: (Cons x b1)
  show ?thesis
  proof (cases b1)
    case Nil
    with one show ?thesis by simp
  next
    case two: (Cons y b2)
    show ?thesis
    proof (cases b2)
      case Nil
      with one two show ?thesis by simp
    next
      case (Cons z b3)
      from assms(1) have "\<not> prefix opener b" by (meson prefix_imp_sublist)
      with one two Cons show ?thesis by simp
    qed
  qed
qed

lemma lazy_run_stop:
  assumes "\<not> sublist opener xs" "\<not> sublist ''</>'' (xs @ opener @ ys)"
  shows "lazy_run (xs @ opener @ ys) = length xs"
  using assms
proof (induction xs)
  case Nil
  then show ?case by simp
next
  case (Cons c cs)
  from Cons.prems(1) have "\<not> prefix opener ((c # cs) @ opener @ ys)"
    by (intro no_straddle) simp_all
  moreover from Cons.prems(2) have "\<not> prefix ''</>'' ((c # cs) @ opener @ ys)"
    by (meson prefix_imp_sublist)
  moreover from Cons.prems have "\<not> sublist opener cs" "\<not> sublist ''</>'' (cs @ opener @ ys)"
    by (simp_all add: sublist_Cons_right)
  ultimately show ?case using Cons.IH by simp
qed

lemma unterminated_blocks_opener: "unterminated_blocks p \<Longrightarrow> \<exists>ys. p = opener @ ys"
  by (induction rule: unterminated_blocks.induct) auto

text \<open>The clean-up pattern matches one unterminated block after the other, and nothing of
  the sequence is left.\<close>

lemma cleanup_blocks:
  "unterminated_blocks p \<Longrightarrow> \<not> sublist ''</>'' p \<Longrightarrow> re_replace cleanup_re (\<lambda>_. []) p = []"
proof (induction rule: unterminated_blocks.induct)
  case (single cls content)
  from single.prems have "\<not> sublist ''</>'' content"
    by (metis sublist_appendI sublist_order.order.trans sublist_order.order_refl
          append.assoc append_Nil2)
  with single.hyps show ?case
    using cleanup_single [of cls content] by simp
next
  case (more cls content rest)
  let ?p = "opener @ cls @ quote # content @ rest"
  from more.hyps(3) obtain ys where rest: "rest = opener @ ys"
    using unterminated_blocks_opener by blast
  have sub: "sublist (content @ rest) (opener @ cls @ [quote] @ content @ rest)"
    by (metis append.assoc sublist_append_leftI)
  with more.prems have nc: "\<not> sublist ''</>'' (content @ rest)"
    using sublist_order.order.trans by blast
  have "sublist rest (content @ rest)" by (rule sublist_append_leftI)
  with nc have nr: "\<not> sublist ''</>'' rest"
    using sublist_order.order.trans by blast
  have dr: "drop (length cls + 4) ?p = content @ rest"
  proof -
    have "length cls + 4 = length (opener @ cls @ [quote])" by simp
    then show ?thesis by (simp only: drop_append) simp
  qed
  have "cleanup_re ?p = Some (length cls + 4 + lazy_run (drop (length cls + 4) ?p))"
    unfolding cleanup_re_def
      opening_re_match [OF more.hyps(1), of "content @ rest"] by simp
  also have "lazy_run (drop (length cls + 4) ?p) = length content"
    unfolding dr using lazy_run_stop [OF more.hyps(2), of ys] nc rest by simp
  finally have m: "cleanup_re ?p = Some (length cls + 4 + length content)" .
  have "drop (length cls + 4 + length content) ?p = rest"
  proof -
    have "length cls + 4 + length content = length (opener @ cls @ quote # content)" by simp
    then show ?thesis by (simp only: drop_append) simp
  qed
  with re_replace_match [of cleanup_re ?p "length cls + 4 + length content" "\<lambda>_. []", OF m]
    more.IH [OF nr]
  show ?case by simp
qed

lemma split_loop_Nil: "split_loop [] 0 = []"
  by (subst split_loop.simps) simp

lemma split_empty: "splitByDivsAndProcessMarkdown m [] = ([], [])"
  by (simp add: splitByDivsAndProcessMarkdown_def split_loop_Nil)

lemma split_plain:
  assumes "trim s \<noteq> []" "\<not> sublist div_class s"
  shows "splitByDivsAndProcessMarkdown m s = (m s, [s])"
proof -
  from assms(1) have ne: "s \<noteq> []" by (auto simp: trim_def)
  from assms(2) have "re_search (lit div_class) s = None" by (rule no_sublist_search)
  then have "indexOf s div_class 0 = None" by (simp add: indexOf_def)
  with ne assms(1) have "split_loop s 0 = [Markdown s]"
    by (subst split_loop.simps) (simp add: markdown_part_def)
  then show ?thesis by (simp add: splitByDivsAndProcessMarkdown_def)
qed

lemma processAllBlocks_in_unchanged:
  assumes "processAngleBlocks_in inner m (fst (protectCodeBlocks s)) = Some (fst (protectCodeBlocks s), [])"
  shows "processAllBlocks_in inner m s =
           Some (restoreCodeBlocks
                   (if sublist opener (fst (protectCodeBlocks s))
                    then remove_unprocessed (fst (protectCodeBlocks s))
                    else fst (protectCodeBlocks s))
                   (snd (protectCodeBlocks s)), [])"
proof -
  obtain p cb where pc: "protectCodeBlocks s = (p, cb)" by force
  from assms pc have "processAngleBlocks_in inner m p = Some (p, [])" by simp
  from blocks_loop_unchanged [of "processAngleBlocks_in inner m" p, OF this]
  have loop: "blocks_loop (processAngleBlocks_in inner m) p True 0 [] = Some (p, [])" .
  show ?thesis
    unfolding processAllBlocks_in_def pc by (simp add: loop includes_str_iff)
qed

lemma markers_opener: "set opener \<subseteq> markers"
  by (simp add: markers_def)

lemma markers_closer: "set ''</>'' \<subseteq> markers"
  by (simp add: markers_def)

text \<open>
  C4, unterminated block, amended. Take a text without closing marker that, once the Code
  Guard has put its placeholders for the code spans, is a sequence of unterminated
  blocks: an opening marker with its class list and closing quote, followed by a content
  (such as \<^verbatim>\<open><>'a' X\<close>), in which every further \<^verbatim>\<open><>'\<close> again has its class list and
  closing quote (such as \<^verbatim>\<open><>'a' X <>'b' Y\<close>). For such a text \<^verbatim>\<open>parse\<close> returns, for
  every Bridge and with one unit of fuel already; it returns the empty text, in which
  there is no opening marker, and the Bridge is not called.
\<close>

theorem unterminated_block:
  assumes "unterminated_blocks (fst (protectCodeBlocks text))"
    and "\<not> sublist ''</>'' text"
  shows "\<exists>html. parse (Suc fuel) m text = Some (html, [])
           \<and> html = [] \<and> \<not> sublist opener html"
proof -
  let ?p = "fst (protectCodeBlocks text)"
  have no_close: "\<not> sublist ''</>'' ?p"
    using protect_sublist [OF markers_closer _ , of "text"] assms(2) by blast
  from assms(1) obtain ys where "?p = opener @ ys"
    using unterminated_blocks_opener by blast
  then have has_open: "sublist opener ?p"
    by (metis sublist_append_rightI)
  from processAngleBlocks_no_closer [OF no_close]
  have "processAngleBlocks_in (processAllBlocks fuel m) m ?p = Some (?p, [])" .
  from processAllBlocks_in_unchanged [OF this] has_open
  have "processAllBlocks (Suc fuel) m text =
          Some (restoreCodeBlocks (remove_unprocessed ?p) (snd (protectCodeBlocks text)), [])"
    by simp
  moreover have "remove_unprocessed ?p = []"
    by (simp add: remove_unprocessed_def cleanup_blocks [OF assms(1) no_close] re_replace_Nil)
  ultimately have "processAllBlocks (Suc fuel) m text = Some ([], [])"
    by (simp add: restore_empty)
  then have "parse (Suc fuel) m text = Some ([], [])"
    by (simp add: parse_def split_empty)
  then show ?thesis by simp
qed

text \<open>In \<^verbatim>\<open><>'a' X `c` <>'b' Y\<close> the Code Guard puts a placeholder for the code span, and two
  unterminated blocks are left.\<close>

theorem unterminated_block_witness:
  "parse 1 sample_bridge (opener @ ''a'' @ [quote] @ '' X'') = Some ([], [])
   \<and> parse 1 sample_bridge
       (opener @ ''a'' @ [quote] @ '' X `c` '' @ opener @ ''b'' @ [quote] @ '' Y'')
     = Some ([], [])"
proof -
  let ?one = "opener @ ''a'' @ [quote] @ '' X''"
  let ?two = "opener @ ''a'' @ [quote] @ '' X `c` '' @ opener @ ''b'' @ [quote] @ '' Y''"
  have q: "quote \<notin> set ''a''" "quote \<notin> set ''b''" by simp_all
  have c: "\<not> sublist opener '' X''" "\<not> sublist opener '' X __INLINE_CODE_0__ ''"
    "\<not> sublist opener '' Y''"
    by code_simp+
  have p1: "fst (protectCodeBlocks ?one) = opener @ ''a'' @ [quote] @ '' X''"
    by code_simp
  have p2: "fst (protectCodeBlocks ?two)
              = opener @ ''a'' @ [quote] @ '' X __INLINE_CODE_0__ ''
                @ (opener @ ''b'' @ [quote] @ '' Y'')"
    by code_simp
  have u1: "unterminated_blocks (fst (protectCodeBlocks ?one))"
    unfolding p1 by (rule unterminated_blocks.single [OF q(1) c(1)])
  have u2: "unterminated_blocks (fst (protectCodeBlocks ?two))"
    unfolding p2
    by (rule unterminated_blocks.more [OF q(1) c(2) unterminated_blocks.single [OF q(2) c(3)]])
  have n: "\<not> sublist ''</>'' ?one" "\<not> sublist ''</>'' ?two"
    by code_simp+
  from unterminated_block [OF u1 n(1), of 0 sample_bridge]
    unterminated_block [OF u2 n(2), of 0 sample_bridge]
  show ?thesis by simp
qed

text \<open>
  An opening marker in the content that has no closing quote behind it is not removed:
  for \<^verbatim>\<open><>'a' X <>'b\<close> the text \<^verbatim>\<open><>'b\<close> is handed to the Bridge, and the output of the
  stand-in Bridge, as that of a Bridge that changes nothing, contains the opening marker.
  A code span that takes the closing quote of the class list away has the same effect:
  \<^verbatim>\<open><>'a`b' X `c\<close> is handed to the Bridge whole.
\<close>

theorem unterminated_block_counterexample:
  "parse 1 sample_bridge (opener @ ''a'' @ [quote] @ '' X '' @ opener @ ''b'')
     = Some (''<p>'' @ opener @ ''b</p>'' @ [CHR 0x0A], [opener @ ''b''])
   \<and> sublist opener (''<p>'' @ opener @ ''b</p>'' @ [CHR 0x0A])
   \<and> parse 1 (\<lambda>s. s) (opener @ ''a'' @ [quote] @ '' X '' @ opener @ ''b'')
     = Some (opener @ ''b'', [opener @ ''b''])
   \<and> parse 1 sample_bridge (opener @ ''a`b'' @ [quote] @ '' X `c'')
     = Some (''<p>'' @ opener @ ''a`b'' @ [quote] @ '' X `c</p>'' @ [CHR 0x0A],
             [opener @ ''a`b'' @ [quote] @ '' X `c''])
   \<and> sublist opener (''<p>'' @ opener @ ''a`b'' @ [quote] @ '' X `c</p>'' @ [CHR 0x0A])"
  by code_simp

text \<open>
  C3, no-op equivalence, amended: for every document that is not blank, contains no
  opening marker \<^verbatim>\<open><>'\<close> and no container tag \<^verbatim>\<open><div class="\<close>, and that the Code Guard gives
  back unchanged, \<^verbatim>\<open>parse\<close> calls the Bridge once, on the document, and returns what the
  Bridge returns.
\<close>

theorem no_markers_is_bridge:
  assumes "trim text \<noteq> []" and "\<not> sublist opener text" and "\<not> sublist div_class text"
    and "restoreCodeBlocks (fst (protectCodeBlocks text)) (snd (protectCodeBlocks text)) = text"
  shows "parse (Suc fuel) m text = Some (m text, [text])"
proof -
  have no_open: "\<not> sublist opener (fst (protectCodeBlocks text))"
    using protect_sublist [OF markers_opener _ , of "text"] assms(2) by blast
  from processAngleBlocks_no_opener [OF no_open]
  have "processAngleBlocks_in (processAllBlocks fuel m) m (fst (protectCodeBlocks text))
          = Some (fst (protectCodeBlocks text), [])" .
  from processAllBlocks_in_unchanged [OF this] no_open assms(4)
  have "processAllBlocks (Suc fuel) m text = Some (text, [])" by simp
  with assms(1) show ?thesis by (simp add: parse_def split_plain [OF assms(1,3)])
qed

theorem no_markers_is_bridge_witness:
  "parse 1 sample_bridge ''# Hi `x` there''
     = Some (sample_bridge ''# Hi `x` there'', [''# Hi `x` there''])"
proof -
  have h: "trim ''# Hi `x` there'' \<noteq> []" "\<not> sublist opener ''# Hi `x` there''"
    "\<not> sublist div_class ''# Hi `x` there''"
    "restoreCodeBlocks (fst (protectCodeBlocks ''# Hi `x` there''))
       (snd (protectCodeBlocks ''# Hi `x` there'')) = ''# Hi `x` there''"
    by code_simp+
  from no_markers_is_bridge [OF h, of 0 sample_bridge] show ?thesis by simp
qed

text \<open>A document without opening marker that contains a container tag is not passed to the
  Bridge as it is: the text before the tag is, and the container is copied. For
  \<^verbatim>\<open>a <div class="x">b</div>\<close> the stand-in Bridge is called on \<^verbatim>\<open>a \<close> only.\<close>

theorem raw_container_counterexample:
  "parse 1 sample_bridge (''a '' @ div_class @ ''x'' @ [CHR 0x22] @ ''>b</div>'')
     = Some (''<p>a</p>'' @ [CHR 0x0A] @ div_class @ ''x'' @ [CHR 0x22] @ ''>b</div>'', [''a ''])
   \<and> sample_bridge (''a '' @ div_class @ ''x'' @ [CHR 0x22] @ ''>b</div>'')
       = ''<p>a '' @ div_class @ ''x'' @ [CHR 0x22] @ ''>b</div></p>'' @ [CHR 0x0A]
   \<and> map_option fst (parse 1 sample_bridge (''a '' @ div_class @ ''x'' @ [CHR 0x22] @ ''>b</div>''))
       \<noteq> Some (sample_bridge (''a '' @ div_class @ ''x'' @ [CHR 0x22] @ ''>b</div>''))"
  by code_simp

lemma angleBlockRegex_no_prefix: "\<not> prefix opener t \<Longrightarrow> angleBlockRegex t = None"
  unfolding angleBlockRegex_def lit_until_def by simp

lemma angleBlockRegex_search:
  assumes "\<not> sublist opener before" "cls \<noteq> []" "quote \<notin> set cls"
  shows "re_search angleBlockRegex (before @ opener @ cls @ quote # rest)
           = Some (length before, length cls + 4)"
proof (rule re_search_first)
  let ?t = "before @ opener @ cls @ quote # rest"
  show "\<forall>k < length before. angleBlockRegex (drop k ?t) = None"
  proof (intro allI impI)
    fix k assume k: "k < length before"
    have "\<not> sublist opener (drop k before)"
      using assms(1) sublist_of_drop by blast
    moreover from k have "drop k before \<noteq> []" by simp
    ultimately have "\<not> prefix opener (drop k before @ opener @ cls @ quote # rest)"
      by (rule no_straddle)
    with k show "angleBlockRegex (drop k ?t) = None"
      by (simp add: angleBlockRegex_no_prefix)
  qed
  show "length before \<le> length ?t" by simp
  from assms(2) have "1 \<le> length cls" by (cases cls) auto
  from lit_until_match [OF assms(3) this, of opener rest]
  show "angleBlockRegex (drop (length before) ?t) = Some (length cls + 4)"
    by (simp add: angleBlockRegex_def)
qed

lemma slice_middle: "slice (xs @ ys @ zs) (length xs) (length xs + length ys) = ys"
  by (simp add: slice_def)

lemma slice_class: "slice (opener @ cls @ [quote]) 3 (length cls + 4 - 1) = cls"
  by (simp add: slice_def)

text \<open>
  C9, class attribute, amended: when \<^verbatim>\<open>processAngleBlocks\<close> resolves a block (the first
  opening marker of the text, with a non-empty class list without quote, for which the
  matcher finds the closing marker), the \<^verbatim>\<open>class\<close> attribute of the container it emits is
  the class list with the white space at its two ends removed, and otherwise as it is
  written: no token is moved, dropped or escaped. The content of the block, processed, is
  passed to the Bridge once.
\<close>

theorem class_attribute_trimmed:
  assumes "\<not> sublist opener before" and "cls \<noteq> []" and "quote \<notin> set cls"
    and "text = before @ opener @ cls @ [quote] @ rest"
    and "findMatchingClosingTag text (length before) (opener @ cls @ [quote]) = Some closingIndex"
    and "processAllBlocks fuel m (slice text (length before + (length cls + 4)) closingIndex)
           = Some (processed, calls)"
  shows "processAngleBlocks fuel m text =
           Some (before @ div_class @ trim cls @ [CHR 0x22] @ ''>'' @ m processed @ ''</div>''
                   @ drop (closingIndex + 4) text,
                 calls @ [processed])"
proof -
  have search: "re_search angleBlockRegex text = Some (length before, length cls + 4)"
    using angleBlockRegex_search [OF assms(1,2,3), of rest] assms(4) by simp
  have full: "slice text (length before) (length before + (length cls + 4)) = opener @ cls @ [quote]"
  proof -
    have t: "text = before @ (opener @ cls @ [quote]) @ rest" using assms(4) by simp
    have e: "length cls + 4 = length (opener @ cls @ [quote])" by simp
    show ?thesis unfolding e by (subst t) (rule slice_middle)
  qed
  have len: "length (opener @ cls @ [quote]) = length cls + 4" by simp
  have before: "take (length before) text = before" using assms(4) by simp
  show ?thesis
    unfolding processAngleBlocks_def processAngleBlocks_in_def search
    by (simp only: option.case prod.case Let_def full len slice_class assms(5,6) before)
       simp
qed


theorem class_attribute_trimmed_witness:
  "processAngleBlocks 1 sample_bridge (opener @ ''p-4'' @ [quote, CHR 0x0A] @ ''# Hi'' @ [CHR 0x0A] @ ''</>'')
     = Some (div_class @ ''p-4'' @ [CHR 0x22] @ ''><p># Hi</p>'' @ [CHR 0x0A] @ ''</div>'',
             [[CHR 0x0A] @ ''# Hi'' @ [CHR 0x0A]])"
proof -
  let ?rest = "[CHR 0x0A] @ ''# Hi'' @ [CHR 0x0A] @ ''</>''"
  let ?t = "[] @ opener @ ''p-4'' @ [quote] @ ?rest"
  have h: "\<not> sublist opener []" "''p-4'' \<noteq> []" "quote \<notin> set ''p-4''"
    "findMatchingClosingTag ?t (length ([]::string)) (opener @ ''p-4'' @ [quote]) = Some 13"
    "processAllBlocks 1 sample_bridge (slice ?t (length ([]::string) + (length ''p-4'' + 4)) 13)
       = Some ([CHR 0x0A] @ ''# Hi'' @ [CHR 0x0A], [])"
    by code_simp+
  have "sample_bridge ([CHR 0x0A] @ ''# Hi'' @ [CHR 0x0A]) = ''<p># Hi</p>'' @ [CHR 0x0A]"
    and "trim ''p-4'' = ''p-4''"
    by code_simp+
  with class_attribute_trimmed [OF h(1,2,3) refl h(4,5)] show ?thesis by simp
qed

text \<open>The class list \<^verbatim>\<open> a \<close> is not emitted as it is written: the attribute is
  \<^verbatim>\<open>class="a"\<close>.\<close>

theorem class_list_trimmed_counterexample:
  "processAngleBlocks 1 sample_bridge (opener @ '' a '' @ [quote] @ ''x</>'')
     = Some (div_class @ ''a'' @ [CHR 0x22] @ ''><p>x</p>'' @ [CHR 0x0A] @ ''</div>'', [''x''])
   \<and> \<not> sublist (div_class @ '' a '' @ [CHR 0x22])
         (fst (the (processAngleBlocks 1 sample_bridge (opener @ '' a '' @ [quote] @ ''x</>''))))"
  by code_simp

lemma indexOf_None: "indexOf s p i = None \<Longrightarrow> \<not> sublist p (drop i s)"
  by (auto simp: indexOf_def split: option.splits dest: lit_search_None)

lemma indexOf_Some:
  assumes "p \<noteq> []" "indexOf s p i = Some d"
  shows "i \<le> d \<and> \<not> sublist p (slice s i d) \<and> prefix p (drop d s)"
proof -
  from assms(2) obtain k l where k: "re_search (lit p) (drop i s) = Some (k, l)" "d = i + k"
    by (auto simp: indexOf_def split: option.splits)
  from lit_search_Some [OF assms(1) k(1)] k(2) show ?thesis
    by (simp add: slice_def add.commute)
qed

lemma div_loop_closing: "div_loop s i depth = Some e \<Longrightarrow> prefix ''</div>'' (drop e s)"
proof (induction s i depth rule: div_loop.induct)
  case (1 s i depth)
  have closing: "\<And>k. indexOf s ''</div>'' i = Some k \<Longrightarrow> prefix ''</div>'' (drop k s)"
    using indexOf_Some [of "''</div>''" s i] by simp
  from "1.prems" have inside: "i < length s"
    unfolding div_loop.simps [of s i depth] by (simp split: if_splits)
  show ?case
  proof (cases "indexOf s ''<div'' i")
    case None
    with "1.prems" "1.IH"(1) inside closing show ?thesis
      unfolding div_loop.simps [of s i depth]
      by (fastforce split: option.splits if_splits)
  next
    case (Some divStart)
    with "1.prems" "1.IH"(2,3,4) [OF inside Some] inside closing
    show ?thesis
      unfolding div_loop.simps [of s i depth]
      by (fastforce split: option.splits if_splits)
  qed
qed

lemma slice_drop: "i \<le> d \<Longrightarrow> slice s i d @ drop d s = drop i s"
proof -
  assume "i \<le> d"
  then have "drop d s = drop (d - i) (drop i s)" by simp
  then show ?thesis by (simp add: slice_def del: drop_drop)
qed

lemma piece_markdown_part: "concat (map piece (markdown_part s)) = s"
  by (simp add: markdown_part_def)

text \<open>The pieces of the loop are consecutive parts of the text, and together they are the
  text from the index of the loop on.\<close>

lemma split_loop_pieces: "concat (map piece (split_loop t i)) = drop i t"
proof (induction t i rule: split_loop.induct)
  case (1 t i)
  show ?case
  proof (cases "i < length t")
    case False
    then show ?thesis by (subst split_loop.simps) simp
  next
    case inside: True
    show ?thesis
    proof (cases "indexOf t div_class i")
      case None
      with inside show ?thesis
        by (subst split_loop.simps) (simp add: piece_markdown_part)
    next
      case (Some divStart)
      then have le: "i \<le> divStart" by (rule indexOf_ge)
      show ?thesis
      proof (cases "findMatchingDivEnd t divStart")
        case None
        with inside Some le show ?thesis
          by (subst split_loop.simps) (simp add: piece_markdown_part slice_drop)
      next
        case (Some divEnd)
        then have "divStart \<le> divEnd + 6"
          by (auto simp: findMatchingDivEnd_def dest: div_loop_ge)
        then have "slice t divStart (divEnd + 6) @ drop (divEnd + 6) t = drop divStart t"
          by (rule slice_drop)
        with "1.IH" [OF inside \<open>indexOf t div_class i = Some divStart\<close> Some]
          inside \<open>indexOf t div_class i = Some divStart\<close> Some le
        show ?thesis
          by (subst split_loop.simps) (simp add: piece_markdown_part slice_drop)
      qed
    qed
  qed
qed

text \<open>What the loop does with a piece of the text \<open>t\<close>: it hands it to the Bridge, drops it
  or copies it.\<close>

definition handled :: "string \<Rightarrow> segment \<Rightarrow> bool" where
  "handled t seg =
     (case seg of
        Markdown s \<Rightarrow>
          trim s \<noteq> []
          \<and> (\<not> sublist div_class s
             \<or> (\<exists>p. s = drop p t \<and> prefix div_class s \<and> findMatchingDivEnd t p = None))
      | Blank s \<Rightarrow> trim s = []
      | Raw s \<Rightarrow>
          (\<exists>d e. prefix div_class (drop d t) \<and> findMatchingDivEnd t d = Some e
             \<and> prefix ''</div>'' (drop e t) \<and> s = slice t d (e + 6)))"

lemma handled_markdown_part:
  assumes "seg \<in> set (markdown_part s)"
    and "\<not> sublist div_class s
         \<or> (\<exists>p. s = drop p t \<and> prefix div_class s \<and> findMatchingDivEnd t p = None)"
  shows "handled t seg"
  using assms by (auto simp: markdown_part_def handled_def split: if_splits)

lemma split_loop_handled: "seg \<in> set (split_loop t i) \<Longrightarrow> handled t seg"
proof (induction t i rule: split_loop.induct)
  case (1 t i)
  from "1.prems" have inside: "i < length t"
    by (subst (asm) split_loop.simps) (simp split: if_splits)
  show ?case
  proof (cases "indexOf t div_class i")
    case None
    with "1.prems" inside have mem: "seg \<in> set (markdown_part (drop i t))"
      by (subst (asm) split_loop.simps) simp
    show ?thesis
      by (rule handled_markdown_part [OF mem disjI1]) (rule indexOf_None [OF None])
  next
    case (Some divStart)
    have ne: "div_class \<noteq> []" by simp
    note found = indexOf_Some [OF ne Some]
    have before: "handled t seg" if "seg \<in> set (markdown_part (slice t i divStart))"
      by (rule handled_markdown_part [OF that disjI1]) (rule conjunct1 [OF conjunct2 [OF found]])
    show ?thesis
    proof (cases "findMatchingDivEnd t divStart")
      case None
      with "1.prems" inside Some
      have "seg \<in> set (markdown_part (slice t i divStart))
            \<or> seg \<in> set (markdown_part (drop divStart t))"
        by (subst (asm) split_loop.simps) auto
      then show ?thesis
      proof
        assume "seg \<in> set (markdown_part (slice t i divStart))"
        then show ?thesis by (rule before)
      next
        assume mem: "seg \<in> set (markdown_part (drop divStart t))"
        show ?thesis
          by (rule handled_markdown_part [OF mem disjI2]) (use found None in blast)
      qed
    next
      case (Some divEnd)
      with "1.prems" inside \<open>indexOf t div_class i = Some divStart\<close>
      have "seg \<in> set (markdown_part (slice t i divStart))
            \<or> seg = Raw (slice t divStart (divEnd + 6))
            \<or> seg \<in> set (split_loop t (divEnd + 6))"
        by (subst (asm) split_loop.simps) auto
      then consider "seg \<in> set (markdown_part (slice t i divStart))"
        | "seg = Raw (slice t divStart (divEnd + 6))"
        | "seg \<in> set (split_loop t (divEnd + 6))"
        by blast
      then show ?thesis
      proof cases
        case 1
        then show ?thesis by (rule before)
      next
        case 2
        from Some have "prefix ''</div>'' (drop divEnd t)"
          by (auto simp: findMatchingDivEnd_def dest: div_loop_closing)
        with 2 found Some show ?thesis
          unfolding handled_def by auto
      next
        case 3
        with "1.IH" [OF inside \<open>indexOf t div_class i = Some divStart\<close> Some]
        show ?thesis by simp
      qed
    qed
  qed
qed

text \<open>
  C2, partition, amended. The pass that follows the resolution of the blocks
  (\<^verbatim>\<open>splitByDivsAndProcessMarkdown\<close>) cuts its text into consecutive pieces, which together
  are the text, and hands each piece to the Bridge, drops it or copies it. A piece handed
  to the Bridge is not blank, and contains no container tag \<^verbatim>\<open><div class="\<close>, or is the
  whole rest of the text, from a container tag for which \<^verbatim>\<open>findMatchingDivEnd\<close> finds no
  closing tag. A piece that is dropped is blank. A piece that is copied runs from a
  container tag to the end of the closing tag \<^verbatim>\<open></div>\<close> that \<^verbatim>\<open>findMatchingDivEnd\<close>, which
  counts the \<^verbatim>\<open><div\<close> and the \<^verbatim>\<open></div>\<close> behind the container tag, matches with it.
\<close>

theorem partition_bridge_inputs:
  "splitByDivsAndProcessMarkdown m text
     = (concat (map (render m) (split_loop text 0)), concat (map bridged (split_loop text 0)))
   \<and> concat (map piece (split_loop text 0)) = text
   \<and> (\<forall>s. Markdown s \<in> set (split_loop text 0) \<longrightarrow>
         trim s \<noteq> []
         \<and> (\<not> sublist div_class s
            \<or> (\<exists>p. s = drop p text \<and> prefix div_class s \<and> findMatchingDivEnd text p = None)))
   \<and> (\<forall>s. Blank s \<in> set (split_loop text 0) \<longrightarrow> trim s = [])
   \<and> (\<forall>s. Raw s \<in> set (split_loop text 0) \<longrightarrow>
         (\<exists>d e. prefix div_class (drop d text) \<and> findMatchingDivEnd text d = Some e
            \<and> prefix ''</div>'' (drop e text) \<and> s = slice text d (e + 6)))"
proof (intro conjI allI impI)
  show "splitByDivsAndProcessMarkdown m text
     = (concat (map (render m) (split_loop text 0)), concat (map bridged (split_loop text 0)))"
    by (simp add: splitByDivsAndProcessMarkdown_def Let_def)
  show "concat (map piece (split_loop text 0)) = text"
    by (simp add: split_loop_pieces)
next
  fix s assume "Markdown s \<in> set (split_loop text 0)"
  from split_loop_handled [OF this]
  show "trim s \<noteq> []"
    and "\<not> sublist div_class s
         \<or> (\<exists>p. s = drop p text \<and> prefix div_class s \<and> findMatchingDivEnd text p = None)"
    by (simp_all add: handled_def)
next
  fix s assume "Blank s \<in> set (split_loop text 0)"
  from split_loop_handled [OF this] show "trim s = []"
    by (simp add: handled_def)
next
  fix s assume "Raw s \<in> set (split_loop text 0)"
  from split_loop_handled [OF this]
  show "\<exists>d e. prefix div_class (drop d text) \<and> findMatchingDivEnd text d = Some e
            \<and> prefix ''</div>'' (drop e text) \<and> s = slice text d (e + 6)"
    by (simp add: handled_def)
qed

text \<open>The text \<^verbatim>\<open>a <div class="x">b</div> c\<close> is cut into three pieces: \<^verbatim>\<open>a \<close> and \<^verbatim>\<open> c\<close> go to
  the Bridge and the container between them is copied.\<close>

theorem partition_bridge_inputs_witness:
  "split_loop (''a '' @ div_class @ ''x'' @ [CHR 0x22] @ ''>b</div> c'') 0
     = [Markdown ''a '', Raw (div_class @ ''x'' @ [CHR 0x22] @ ''>b</div>''), Markdown '' c'']
   \<and> snd (splitByDivsAndProcessMarkdown sample_bridge
            (''a '' @ div_class @ ''x'' @ [CHR 0x22] @ ''>b</div> c'')) = [''a '', '' c'']
   \<and> \<not> sublist div_class ''a '' \<and> \<not> sublist div_class '' c''
   \<and> (\<exists>d e. findMatchingDivEnd (''a '' @ div_class @ ''x'' @ [CHR 0x22] @ ''>b</div> c'') d
                = Some e
          \<and> div_class @ ''x'' @ [CHR 0x22] @ ''>b</div>''
              = slice (''a '' @ div_class @ ''x'' @ [CHR 0x22] @ ''>b</div> c'') d (e + 6))"
proof -
  define t where "t = ''a '' @ div_class @ ''x'' @ [CHR 0x22] @ ''>b</div> c''"
  have segs: "split_loop t 0
     = [Markdown ''a '', Raw (div_class @ ''x'' @ [CHR 0x22] @ ''>b</div>''), Markdown '' c'']"
    unfolding t_def by code_simp
  have calls: "snd (splitByDivsAndProcessMarkdown sample_bridge t) = [''a '', '' c'']"
    unfolding t_def by code_simp
  note inst = partition_bridge_inputs [of sample_bridge t, unfolded segs]
  have np: "\<not> prefix div_class ''a ''" "\<not> prefix div_class '' c''" by simp_all
  from inst have "\<not> sublist div_class ''a '' \<or>
      (\<exists>p. ''a '' = drop p t \<and> prefix div_class ''a '' \<and> findMatchingDivEnd t p = None)"
    by simp
  with np have a: "\<not> sublist div_class ''a ''" by blast
  from inst have "\<not> sublist div_class '' c'' \<or>
      (\<exists>p. '' c'' = drop p t \<and> prefix div_class '' c'' \<and> findMatchingDivEnd t p = None)"
    by simp
  with np have c: "\<not> sublist div_class '' c''" by blast
  from inst have raw: "\<exists>d e. findMatchingDivEnd t d = Some e
      \<and> div_class @ ''x'' @ [CHR 0x22] @ ''>b</div>'' = slice t d (e + 6)"
    by auto
  from segs calls a c raw show ?thesis unfolding t_def by blast
qed

text \<open>
  The rendered containers are not kept from the Bridge. While a block is resolved, its
  processed content goes to the Bridge with the containers of the blocks nested in it:
  for \<^verbatim>\<open><>'a'<>'b'Y</> </> \<close> the second text handed to the Bridge is the rendered
  container of the block \<^verbatim>\<open>b\<close>. In the partitioning pass a container whose content
  brings an unclosed \<^verbatim>\<open><div>\<close> has no matching closing tag for \<^verbatim>\<open>findMatchingDivEnd\<close>:
  for \<^verbatim>\<open><>'a'<div></> \<close> the rendered container is handed to the Bridge again, whole. And
  with a \<^verbatim>\<open></div>\<close> in its content the piece that is copied ends there: for
  \<^verbatim>\<open><>'a'x</div>y</> \<close> the rest of the rendered container, with its closing tag, is
  handed to the Bridge.
\<close>

theorem rendered_container_bridged_counterexample:
  "map_option snd
     (parse 3 sample_bridge (opener @ ''a'' @ [quote] @ opener @ ''b'' @ [quote] @ ''Y</> </> ''))
     = Some [''Y'', div_class @ ''b'' @ [CHR 0x22] @ ''><p>Y</p>'' @ [CHR 0x0A] @ ''</div>'']
   \<and> processAllBlocks 2 sample_bridge (opener @ ''a'' @ [quote] @ ''<div></> '')
     = Some (div_class @ ''a'' @ [CHR 0x22] @ ''><p><div></p>'' @ [CHR 0x0A] @ ''</div>'', [''<div>''])
   \<and> map_option snd (parse 2 sample_bridge (opener @ ''a'' @ [quote] @ ''<div></> ''))
       = Some [''<div>'', div_class @ ''a'' @ [CHR 0x22] @ ''><p><div></p>'' @ [CHR 0x0A] @ ''</div>'']
   \<and> processAllBlocks 2 sample_bridge (opener @ ''a'' @ [quote] @ ''x</div>y</> '')
     = Some (div_class @ ''a'' @ [CHR 0x22] @ ''><p>x</div>y</p>'' @ [CHR 0x0A] @ ''</div>'',
             [''x</div>y''])
   \<and> findMatchingDivEnd
         (div_class @ ''a'' @ [CHR 0x22] @ ''><p>x</div>y</p>'' @ [CHR 0x0A] @ ''</div>'') 0
       = Some 19
   \<and> map_option snd (parse 2 sample_bridge (opener @ ''a'' @ [quote] @ ''x</div>y</> ''))
       = Some [''x</div>y'', ''y</p>'' @ [CHR 0x0A] @ ''</div>'']"
  by code_simp



end
